theory Spec2Isabelle
  imports Main "HOL-Library.Word"
begin

unbundle bit_operations_syntax

section \<open>Cells, rectangles and the display state\<close>

text \<open>
  The terminal display of \<^verbatim>\<open>konsole/TerminalDisplay.cpp\<close> keeps a retained character
  image (a flat array of cells, row stride \<^verbatim>\<open>columns\<close>) and compares it in
  \<^verbatim>\<open>updateImage\<close> with the image of the screen window. The C++ \<^verbatim>\<open>int\<close>s are
  modelled as mathematical integers: the quantities are cell counts and pixel offsets of
  one widget. A failed \<^verbatim>\<open>assert\<close>, a read or write outside an array and a division by
  zero are results of their own.
\<close>

datatype error = AssertFailed | OutOfRange | DivByZero

text \<open>
  Modelled from the spec: the declarations of \<^verbatim>\<open>CharacterColor\<close> and \<^verbatim>\<open>Character\<close>
  (Character.h) are not part of the sources. A colour is a colour space with a value, as
  the constructor calls in \<^verbatim>\<open>clearImage\<close> build it; a cell has a code point (the
  differencer reads it into a \<^verbatim>\<open>Q_UINT16\<close>), a rendition (read into a \<^verbatim>\<open>UINT8\<close>) and
  the two colours; cells are compared field by field. The numeric values of the named
  constants are declared outside the sources too; the flags are single bits, and the
  general theorems below do not depend on the values.
\<close>

datatype CharacterColor = CharacterColor (colorSpace: "8 word") (colorValue: int)

record Character =
  character :: "16 word"
  rendition :: "8 word"
  foregroundColor :: CharacterColor
  backgroundColor :: CharacterColor

definition COLOR_SPACE_DEFAULT :: "8 word" where "COLOR_SPACE_DEFAULT = 1"
definition DEFAULT_FORE_COLOR :: int where "DEFAULT_FORE_COLOR = 0"
definition DEFAULT_BACK_COLOR :: int where "DEFAULT_BACK_COLOR = 1"
definition DEFAULT_RENDITION :: "8 word" where "DEFAULT_RENDITION = 0"
definition RE_BLINK :: "8 word" where "RE_BLINK = 2"
definition LINE_DOUBLEHEIGHT :: "8 word" where "LINE_DOUBLEHEIGHT = 4"

text \<open>\<^verbatim>\<open>isLineChar\<close>: the code points U+2500 .. U+257F.\<close>

definition isLineChar :: "16 word \<Rightarrow> bool" where
  "isLineChar c = ((c AND 0xFF80) = 0x2500)"

text \<open>
  \<^verbatim>\<open>QRect(x, y, w, h)\<close>; a \<^verbatim>\<open>QRegion\<close> is kept as the list of the rectangles that
  were united into it, in order. Its points are the points of its rectangles, and a
  rectangle without width or height has none.
\<close>

record QRect =
  rx :: int
  ry :: int
  rw :: int
  rh :: int

type_synonym QRegion = "QRect list"

definition mkRect :: "int \<Rightarrow> int \<Rightarrow> int \<Rightarrow> int \<Rightarrow> QRect" where
  "mkRect x y w h = \<lparr> rx = x, ry = y, rw = w, rh = h \<rparr>"

definition rectIsEmpty :: "QRect \<Rightarrow> bool" where
  "rectIsEmpty q = (rw q \<le> 0 \<or> rh q \<le> 0)"

definition rectPoints :: "QRect \<Rightarrow> (int \<times> int) set" where
  "rectPoints q = {(px, py). rx q \<le> px \<and> px < rx q + rw q \<and> ry q \<le> py \<and> py < ry q + rh q}"

definition regionPoints :: "QRegion \<Rightarrow> (int \<times> int) set" where
  "regionPoints r = (\<Union>q \<in> set r. rectPoints q)"

definition regionIsEmpty :: "QRegion \<Rightarrow> bool" where
  "regionIsEmpty r = list_all rectIsEmpty r"

datatype ScrollBarLocation = SCROLLBAR_NONE | SCROLLBAR_LEFT | SCROLLBAR_RIGHT

text \<open>
  The members of \<^verbatim>\<open>TerminalDisplay\<close> that the modelled functions read or write. The
  null image pointer is \<open>None\<close>. \<open>contentsRect\<close> and \<open>scrollbarWidth\<close> stand for the
  values that the toolkit calls \<^verbatim>\<open>contentsRect()\<close> and \<^verbatim>\<open>scrollbar->width()\<close> return.
\<close>

record TerminalDisplay =
  lines :: int
  columns :: int
  usedLines :: int
  usedColumns :: int
  contentHeight :: int
  contentWidth :: int
  image :: "Character list option"
  image_size :: int
  font_h :: int
  font_w :: int
  bX :: int
  bY :: int
  rimX :: int
  rimY :: int
  scrollLoc :: ScrollBarLocation
  isFixedSize :: bool
  resizing :: bool
  hasBlinker :: bool
  lineProperties :: "8 word list"
  m_imPreeditLength :: int
  m_imStart :: int
  m_imStartLine :: int
  m_imEnd :: int
  m_imSelStart :: int
  m_imSelEnd :: int
  contentsRect :: QRect
  scrollbarWidth :: int

text \<open>
  The screen window as \<^verbatim>\<open>updateImage\<close> sees it: the values of \<^verbatim>\<open>scrollCount()\<close>,
  \<^verbatim>\<open>getImage()\<close>, \<^verbatim>\<open>windowLines()\<close> and \<^verbatim>\<open>windowColumns()\<close>. The class is not part of
  the sources; \<^verbatim>\<open>resetScrollCount()\<close> is taken to set the scroll count to 0.
\<close>

record ScreenWindow =
  scrollCount :: int
  windowImage :: "Character list"
  windowLines :: int
  windowColumns :: int

text \<open>Reading cell \<open>i\<close> of an array: outside the array there is no cell to read.\<close>

definition cellAt :: "Character list \<Rightarrow> int \<Rightarrow> error + Character" where
  "cellAt buf i = (if 0 \<le> i \<and> i < int (length buf) then Inr (buf ! nat i) else Inl OutOfRange)"

section \<open>The image differencer: \<^verbatim>\<open>updateImage\<close>\<close>

subsection \<open>The dirty mask of a row\<close>

text \<open>
  The first disjunct of the test in the mask loop, with the precedence of \<^verbatim>\<open>&&\<close> over
  \<^verbatim>\<open>||\<close> that the source text has: the composition span counts on its own row and
  strictly between \<^verbatim>\<open>m_imStart\<close> and \<^verbatim>\<open>m_imEnd\<close>, the selection span counts to the
  right of \<^verbatim>\<open>m_imSelStart\<close>.
\<close>

definition imSpan :: "TerminalDisplay \<Rightarrow> int \<Rightarrow> int \<Rightarrow> bool" where
  "imSpan d y x =
     (m_imPreeditLength d > 0 \<and>
      ((m_imStartLine d = y \<and> (m_imStart d < m_imEnd d \<and> x > m_imStart d \<and> x < m_imEnd d))
       \<or> (m_imSelStart d < m_imSelEnd d \<and> x > m_imSelStart d)))"

text \<open>
  \<^verbatim>\<open>dirtyMask[x] = dirtyMask[x+1] = dirtyMask[x+2] = 1\<close> on the array as allocated
  (\<^verbatim>\<open>columnsToUpdate+2\<close> bytes); after \<^verbatim>\<open>dirtyMask++\<close> column \<open>x\<close> is entry \<open>x + 1\<close>.
\<close>

definition markDirty :: "bool list \<Rightarrow> int \<Rightarrow> bool list" where
  "markDirty m x = m[nat x := True, nat (x + 1) := True, nat (x + 2) := True]"

definition maskAt :: "bool list \<Rightarrow> int \<Rightarrow> bool" where
  "maskAt m x = m ! nat (x + 1)"

function dirtyLoop :: "TerminalDisplay \<Rightarrow> int \<Rightarrow> (int \<Rightarrow> error + Character) \<Rightarrow>
    (int \<Rightarrow> error + Character) \<Rightarrow> int \<Rightarrow> int \<Rightarrow> bool list \<Rightarrow> error + bool list" where
  "dirtyLoop d y newLine currentLine columnsToUpdate x m =
     (if x < columnsToUpdate then
        (if imSpan d y x then
           dirtyLoop d y newLine currentLine columnsToUpdate (x + 1) (markDirty m x)
         else
           (case newLine x of
              Inl e \<Rightarrow> Inl e
            | Inr a \<Rightarrow>
               (case currentLine x of
                  Inl e \<Rightarrow> Inl e
                | Inr b \<Rightarrow>
                    dirtyLoop d y newLine currentLine columnsToUpdate (x + 1)
                      (if a \<noteq> b then markDirty m x else m))))
      else Inr m)"
  by pat_completeness auto
termination
  by (relation "measure (\<lambda>(d, y, newLine, currentLine, columnsToUpdate, x, m). nat (columnsToUpdate - x))") auto

declare dirtyLoop.simps [simp del]

definition dirtyMaskRow :: "TerminalDisplay \<Rightarrow> int \<Rightarrow> (int \<Rightarrow> error + Character) \<Rightarrow>
    (int \<Rightarrow> error + Character) \<Rightarrow> int \<Rightarrow> error + bool list" where
  "dirtyMaskRow d y newLine currentLine columnsToUpdate =
     dirtyLoop d y newLine currentLine columnsToUpdate 0
       (replicate (nat (columnsToUpdate + 2)) False)"

text \<open>The row pointers \<^verbatim>\<open>newLine = &newimg[y*columns]\<close> and
  \<^verbatim>\<open>currentLine = &image[y*this->columns]\<close>, as readers of the cell at offset \<open>x\<close>.\<close>

definition newLineOf :: "ScreenWindow \<Rightarrow> int \<Rightarrow> int \<Rightarrow> error + Character" where
  "newLineOf sw y x = cellAt (windowImage sw) (y * windowColumns sw + x)"

definition currentLineOf :: "TerminalDisplay \<Rightarrow> Character list \<Rightarrow> int \<Rightarrow> int \<Rightarrow> error + Character" where
  "currentLineOf d img y x = cellAt img (y * columns d + x)"



subsection \<open>The scan of a row for drawable runs\<close>

text \<open>
  The locals that the scan fixes at the first cell of a run: \<^verbatim>\<open>cf\<close>, \<^verbatim>\<open>cb\<close>, \<^verbatim>\<open>cr\<close>
  (an \<^verbatim>\<open>int\<close> holding the rendition byte), \<^verbatim>\<open>lineDraw\<close> and \<^verbatim>\<open>doubleWidth\<close>.
\<close>

record RunHead =
  cf :: CharacterColor
  cb :: CharacterColor
  cr :: int
  lineDraw :: bool
  doubleWidth :: bool

text \<open>
  The inner loop \<^verbatim>\<open>for (len = 1; len < lln; len++)\<close>: a cell with code point 0 is passed
  over, a cell that differs from the head in an attribute, is not dirty, or differs in
  line-drawing or double-width status ends the run; the cell after the current one is read
  only when the tests before it in the \<^verbatim>\<open>||\<close> chain are all false. The result is the
  final \<^verbatim>\<open>len\<close> and the characters collected in \<^verbatim>\<open>disstrU\<close>.
\<close>

function runLoop :: "(int \<Rightarrow> error + Character) \<Rightarrow> bool list \<Rightarrow> int \<Rightarrow> int \<Rightarrow> RunHead \<Rightarrow>
    int \<Rightarrow> 16 word list \<Rightarrow> error + (int \<times> 16 word list)" where
  "runLoop newLine dirtyMask x lln h len dis =
     (if len < lln then
        (case newLine (x + len) of
           Inl e \<Rightarrow> Inl e
         | Inr ch \<Rightarrow>
            (if character ch = 0 then runLoop newLine dirtyMask x lln h (len + 1) dis
             else if foregroundColor ch \<noteq> cf h \<or> backgroundColor ch \<noteq> cb h
                     \<or> uint (rendition ch) \<noteq> cr h \<or> \<not> maskAt dirtyMask (x + len)
                     \<or> isLineChar (character ch) \<noteq> lineDraw h
                  then Inr (len, dis)
             else
               (case newLine (x + len + 1) of
                  Inl e \<Rightarrow> Inl e
                | Inr nx \<Rightarrow>
                    (if (character nx = 0) \<noteq> doubleWidth h then Inr (len, dis)
                     else runLoop newLine dirtyMask x lln h (len + 1) (dis @ [character ch])))))
      else Inr (len, dis))"
  by pat_completeness auto
termination
  by (relation "measure (\<lambda>(newLine, dirtyMask, x, lln, h, len, dis). nat (lln - len))") auto

declare runLoop.simps [simp del]

text \<open>The head of the run that starts at cell \<open>ch\<close>, whose right neighbour is \<open>nx\<close>.\<close>

definition runHead :: "Character \<Rightarrow> Character \<Rightarrow> RunHead" where
  "runHead ch nx =
     \<lparr> cf = foregroundColor ch, cb = backgroundColor ch, cr = uint (rendition ch),
       lineDraw = isLineChar (character ch), doubleWidth = (character nx = 0) \<rparr>"

text \<open>A run as the scan knows it after the inner loop: its first column \<^verbatim>\<open>x\<close>, its
  \<^verbatim>\<open>len\<close> and its text \<^verbatim>\<open>unistr\<close>.\<close>

type_synonym Run = "int \<times> int \<times> 16 word list"

text \<open>
  The outer loop \<^verbatim>\<open>for (x = 0; x < columnsToUpdate; x++)\<close>. At a dirty column with a
  nonzero code point a run starts and the loop goes on behind it (\<^verbatim>\<open>x += len - 1\<close>, then
  \<^verbatim>\<open>x++\<close>); a dirty column with code point 0 is left by \<^verbatim>\<open>continue\<close>. The result is
  \<^verbatim>\<open>hasBlinker\<close> and the runs found, first to last; \<^verbatim>\<open>updateLine\<close> is set by each run.
\<close>

function scanLoop :: "(int \<Rightarrow> error + Character) \<Rightarrow> bool list \<Rightarrow> int \<Rightarrow> int \<Rightarrow> bool \<Rightarrow>
    Run list \<Rightarrow> error + (bool \<times> Run list)" where
  "scanLoop newLine dirtyMask columnsToUpdate x hb runs =
     (if x < columnsToUpdate then
        (case newLine x of
           Inl e \<Rightarrow> Inl e
         | Inr ch \<Rightarrow>
            (let hb' = (hb \<or> (rendition ch AND RE_BLINK) \<noteq> 0) in
             if maskAt dirtyMask x then
               (if character ch = 0 then scanLoop newLine dirtyMask columnsToUpdate (x + 1) hb' runs
                else
                  (case newLine (x + 1) of
                     Inl e \<Rightarrow> Inl e
                   | Inr nx \<Rightarrow>
                      (case runLoop newLine dirtyMask x (columnsToUpdate - x)
                              (runHead ch nx) 1 [character ch] of
                         Inl e \<Rightarrow> Inl e
                       | Inr (len, dis) \<Rightarrow>
                           scanLoop newLine dirtyMask columnsToUpdate (x + len) hb'
                             (runs @ [(x, len, dis)]))))
             else scanLoop newLine dirtyMask columnsToUpdate (x + 1) hb' runs))
      else Inr (hb, runs))"
  by pat_completeness auto
termination
proof (relation "measure (\<lambda>(newLine, dirtyMask, columnsToUpdate, x, hb, runs). nat (columnsToUpdate - x))")
  have grows: "runLoop newLine dm x lln h len dis = Inr (len', dis') \<Longrightarrow> len \<le> len'"
    for newLine dm x lln h len dis len' dis'
  proof (induction newLine dm x lln h len dis rule: runLoop.induct)
    case (1 newLine dm x lln h len dis)
    note unf = runLoop.simps[of newLine dm x lln h len dis]
    show ?case
    proof (cases "len < lln")
      case False
      with "1.prems" show ?thesis by (simp add: unf)
    next
      case True
      then obtain ch where ch: "newLine (x + len) = Inr ch"
        using "1.prems" by (cases "newLine (x + len)") (simp_all add: unf)
      show ?thesis
      proof (cases "character ch = 0")
        case z: True
        with True ch "1.prems" have "runLoop newLine dm x lln h (len + 1) dis = Inr (len', dis')"
          by (simp add: unf)
        from "1.IH"(1)[OF True ch z this] show ?thesis by simp
      next
        case nz: False
        show ?thesis
        proof (cases "foregroundColor ch \<noteq> cf h \<or> backgroundColor ch \<noteq> cb h
                       \<or> uint (rendition ch) \<noteq> cr h \<or> \<not> maskAt dm (x + len)
                       \<or> isLineChar (character ch) \<noteq> lineDraw h")
          case br: True
          with True ch nz "1.prems" show ?thesis by (simp add: unf)
        next
          case nb: False
          then obtain nx where nx: "newLine (x + len + 1) = Inr nx"
            using True ch nz "1.prems" by (cases "newLine (x + len + 1)") (simp_all add: unf)
          show ?thesis
          proof (cases "(character nx = 0) \<noteq> doubleWidth h")
            case True
            with \<open>len < lln\<close> ch nz nb nx "1.prems" show ?thesis by (simp add: unf)
          next
            case False
            with \<open>len < lln\<close> ch nz nb nx "1.prems"
            have "runLoop newLine dm x lln h (len + 1) (dis @ [character ch]) = Inr (len', dis')"
              by (simp add: unf)
            from "1.IH"(2)[OF \<open>len < lln\<close> ch nz nb nx False this] show ?thesis by simp
          qed
        qed
      qed
    qed
  qed
  fix newLine :: "int \<Rightarrow> error + Character" and dirtyMask :: "bool list"
    and columnsToUpdate x :: int and hb :: bool and runs :: "Run list"
    and ch nx :: Character and hb' :: bool and r :: "int \<times> 16 word list"
    and len :: int and dis :: "16 word list"
  assume "x < columnsToUpdate"
    and "runLoop newLine dirtyMask x (columnsToUpdate - x) (runHead ch nx) 1 [character ch] = Inr r"
    and "(len, dis) = r"
  then have "1 \<le> len" using grows by metis
  with \<open>x < columnsToUpdate\<close>
  show "((newLine, dirtyMask, columnsToUpdate, x + len, hb', runs @ [(x, len, dis)]),
         (newLine, dirtyMask, columnsToUpdate, x, hb, runs))
        \<in> measure (\<lambda>(newLine, dirtyMask, columnsToUpdate, x, hb, runs). nat (columnsToUpdate - x))"
    by simp
qed auto

declare scanLoop.simps [simp del]

text \<open>
  The two conditions on a column \<open>i\<close> of a row in which the extent of a run is stated
  below: the column is the continuation half of a double-width glyph (code point 0); the
  column has the foreground colour, background colour and rendition of the head of the
  run, is marked dirty, and has the head's line-drawing and double-width status (its own
  double-width status is read from the cell to its right).
\<close>

definition continuation :: "(int \<Rightarrow> error + Character) \<Rightarrow> int \<Rightarrow> bool" where
  "continuation newLine i = (case newLine i of Inl e \<Rightarrow> False | Inr c \<Rightarrow> character c = 0)"

definition coalesces :: "(int \<Rightarrow> error + Character) \<Rightarrow> bool list \<Rightarrow> RunHead \<Rightarrow> int \<Rightarrow> bool" where
  "coalesces newLine dirtyMask h i =
     (case newLine i of
        Inl e \<Rightarrow> False
      | Inr c \<Rightarrow>
          foregroundColor c = cf h \<and> backgroundColor c = cb h \<and> uint (rendition c) = cr h \<and>
          maskAt dirtyMask i \<and> isLineChar (character c) = lineDraw h \<and>
          (case newLine (i + 1) of Inl e \<Rightarrow> False | Inr nx \<Rightarrow> (character nx = 0) = doubleWidth h))"

subsection \<open>Block copies\<close>

text \<open>
  \<^verbatim>\<open>memcpy(&dst[di], &src[si], n * sizeof(Character))\<close> between two arrays, and
  \<^verbatim>\<open>memmove\<close> inside one array. A copy of no cells touches no memory; any other copy
  must stay inside both arrays.
\<close>

definition memcpyCells :: "Character list \<Rightarrow> int \<Rightarrow> Character list \<Rightarrow> int \<Rightarrow> int \<Rightarrow>
    error + Character list" where
  "memcpyCells dst di src si n =
     (if n = 0 then Inr dst
      else if n < 0 \<or> di < 0 \<or> si < 0 \<or> int (length dst) < di + n \<or> int (length src) < si + n
        then Inl OutOfRange
      else Inr (take (nat di) dst @ take (nat n) (drop (nat si) src) @ drop (nat (di + n)) dst))"

definition memmoveCells :: "Character list \<Rightarrow> int \<Rightarrow> int \<Rightarrow> int \<Rightarrow> error + Character list" where
  "memmoveCells buf di si n = memcpyCells buf di buf si n"

subsection \<open>The loop over the rows\<close>

text \<open>The rectangle of row \<open>y\<close>: \<^verbatim>\<open>QRect(bX+tLx, bY+tLy+font_h*y, font_w*columnsToUpdate, font_h)\<close>.\<close>

definition dirtyRect :: "TerminalDisplay \<Rightarrow> int \<Rightarrow> int \<Rightarrow> QRect" where
  "dirtyRect d columnsToUpdate y =
     mkRect (bX d + rx (contentsRect d)) (bY d + ry (contentsRect d) + font_h d * y)
            (font_w d * columnsToUpdate) (font_h d)"

text \<open>\<^verbatim>\<open>lineProperties.count() > y\<close> and \<^verbatim>\<open>lineProperties[y] & LINE_DOUBLEHEIGHT\<close>.\<close>

definition doubleHeightAt :: "TerminalDisplay \<Rightarrow> int \<Rightarrow> bool" where
  "doubleHeightAt d y =
     (int (length (lineProperties d)) > y \<and> (lineProperties d ! nat y AND LINE_DOUBLEHEIGHT) \<noteq> 0)"

text \<open>
  The scan of row \<open>y\<close> as the body of the row loop has it: no scan while \<^verbatim>\<open>resizing\<close>.
\<close>

definition scanRow :: "TerminalDisplay \<Rightarrow> (int \<Rightarrow> error + Character) \<Rightarrow> bool list \<Rightarrow> int \<Rightarrow>
    bool \<Rightarrow> error + (bool \<times> Run list)" where
  "scanRow d newLine dirtyMask columnsToUpdate hb =
     (if resizing d then Inr (hb, []) else scanLoop newLine dirtyMask columnsToUpdate 0 hb [])"

text \<open>
  The body of \<^verbatim>\<open>for (y = 0; y < linesToUpdate; y++)\<close> for row \<open>y\<close>: the mask and the
  scan of the row, the double-height test, and the copy of the new row over the retained
  one. It yields the runs of the row, \<^verbatim>\<open>updateLine\<close>, the image and \<^verbatim>\<open>hasBlinker\<close>.
\<close>

definition diffRow :: "TerminalDisplay \<Rightarrow> ScreenWindow \<Rightarrow> int \<Rightarrow> int \<Rightarrow> Character list \<Rightarrow> bool \<Rightarrow>
    error + (Run list \<times> bool \<times> Character list \<times> bool)" where
  "diffRow d sw columnsToUpdate y img hb =
     (case dirtyMaskRow d y (newLineOf sw y) (currentLineOf d img y) columnsToUpdate of
        Inl e \<Rightarrow> Inl e
      | Inr dirtyMask \<Rightarrow>
         (case scanRow d (newLineOf sw y) dirtyMask columnsToUpdate hb of
            Inl e \<Rightarrow> Inl e
          | Inr (hb', runs) \<Rightarrow>
             (let updateLine = (runs \<noteq> [] \<or> doubleHeightAt d y)
              in case memcpyCells img (y * columns d) (windowImage sw) (y * windowColumns sw)
                        columnsToUpdate of
                   Inl e \<Rightarrow> Inl e
                 | Inr img' \<Rightarrow> Inr (runs, updateLine, img', hb'))))"

text \<open>
  The loop over the rows: the rectangle of each row with \<^verbatim>\<open>updateLine\<close> set is united
  into the region. The loop hands back the image, the region and \<^verbatim>\<open>hasBlinker\<close>.
\<close>

function rowLoop :: "TerminalDisplay \<Rightarrow> ScreenWindow \<Rightarrow> int \<Rightarrow> int \<Rightarrow> int \<Rightarrow> Character list \<Rightarrow>
    QRegion \<Rightarrow> bool \<Rightarrow> error + (Character list \<times> QRegion \<times> bool)" where
  "rowLoop d sw columnsToUpdate linesToUpdate y img dirtyRegion hb =
     (if y < linesToUpdate then
        (case diffRow d sw columnsToUpdate y img hb of
           Inl e \<Rightarrow> Inl e
         | Inr (runs, updateLine, img', hb') \<Rightarrow>
             rowLoop d sw columnsToUpdate linesToUpdate (y + 1) img'
               (if updateLine then dirtyRegion @ [dirtyRect d columnsToUpdate y] else dirtyRegion)
               hb')
      else Inr (img, dirtyRegion, hb))"
  by pat_completeness auto
termination
  by (relation "measure (\<lambda>(d, sw, columnsToUpdate, linesToUpdate, y, img, dirtyRegion, hb).
        nat (linesToUpdate - y))") auto

declare rowLoop.simps [simp del]

section \<open>Allocation and resize of the retained image\<close>

text \<open>The quotient of two C++ \<^verbatim>\<open>int\<close>s, rounded towards zero.\<close>

definition cdiv :: "int \<Rightarrow> int \<Rightarrow> int" where
  "cdiv a b = sgn a * sgn b * (\<bar>a\<bar> div \<bar>b\<bar>)"

text \<open>
  \<^verbatim>\<open>calcGeometry\<close>, without the calls that place the scroll bar widget. A division by a
  zero font width or height is an error of its own.
\<close>

definition calcGeometry :: "TerminalDisplay \<Rightarrow> error + TerminalDisplay" where
  "calcGeometry d =
     (let d1 = (case scrollLoc d of
                  SCROLLBAR_NONE \<Rightarrow>
                    d\<lparr> bX := rimX d, contentWidth := rw (contentsRect d) - 2 * rimX d \<rparr>
                | SCROLLBAR_LEFT \<Rightarrow>
                    d\<lparr> bX := rimX d + scrollbarWidth d,
                       contentWidth := rw (contentsRect d) - 2 * rimX d - scrollbarWidth d \<rparr>
                | SCROLLBAR_RIGHT \<Rightarrow>
                    d\<lparr> bX := rimX d,
                       contentWidth := rw (contentsRect d) - 2 * rimX d - scrollbarWidth d \<rparr>);
          d2 = d1\<lparr> bY := rimY d1, contentHeight := rh (contentsRect d1) - 2 * rimY d1 + 1 \<rparr>
      in if \<not> isFixedSize d2 then
           (if font_w d2 = 0 then Inl DivByZero
            else
              (let d3 = d2\<lparr> columns := max 1 (cdiv (contentWidth d2) (font_w d2)) \<rparr>;
                   d4 = d3\<lparr> usedColumns := min (usedColumns d3) (columns d3) \<rparr>
               in if font_h d4 = 0 then Inl DivByZero
                  else
                    (let d5 = d4\<lparr> lines := max 1 (cdiv (contentHeight d4) (font_h d4)) \<rparr>
                     in Inr (d5\<lparr> usedLines := min (usedLines d5) (lines d5) \<rparr>))))
         else Inr d2)"

text \<open>The cell that \<^verbatim>\<open>clearImage\<close> writes: a space, the default colours, the default rendition.\<close>

definition blankCell :: Character where
  "blankCell = \<lparr> character = 0x20,
                 rendition = DEFAULT_RENDITION,
                 foregroundColor = CharacterColor COLOR_SPACE_DEFAULT DEFAULT_FORE_COLOR,
                 backgroundColor = CharacterColor COLOR_SPACE_DEFAULT DEFAULT_BACK_COLOR \<rparr>"

text \<open>\<^verbatim>\<open>for (int i = 0; i <= image_size; i++)\<close> of \<^verbatim>\<open>clearImage\<close>.\<close>

function clearLoop :: "Character list \<Rightarrow> int \<Rightarrow> int \<Rightarrow> error + Character list" where
  "clearLoop img i n =
     (if i \<le> n then
        (if 0 \<le> i \<and> i < int (length img) then clearLoop (img[nat i := blankCell]) (i + 1) n
         else Inl OutOfRange)
      else Inr img)"
  by pat_completeness auto
termination
  by (relation "measure (\<lambda>(img, i, n). nat (n + 1 - i))") auto

declare clearLoop.simps [simp del]

definition clearImage :: "TerminalDisplay \<Rightarrow> error + TerminalDisplay" where
  "clearImage d =
     (case image d of
        None \<Rightarrow> (if 0 \<le> image_size d then Inl OutOfRange else Inr d)
      | Some img \<Rightarrow>
          (case clearLoop img 0 (image_size d) of
             Inl e \<Rightarrow> Inl e
           | Inr img' \<Rightarrow> Inr (d\<lparr> image := Some img' \<rparr>)))"

text \<open>
  \<^verbatim>\<open>makeImage\<close>. The block that \<^verbatim>\<open>malloc\<close> returns has \<^verbatim>\<open>image_size+1\<close> cells of
  unknown content, given by \<open>junk\<close>; a failing \<^verbatim>\<open>malloc\<close> is not modelled.
\<close>

definition makeImage :: "TerminalDisplay \<Rightarrow> (nat \<Rightarrow> Character) \<Rightarrow> error + TerminalDisplay" where
  "makeImage d junk =
     (case calcGeometry d of
        Inl e \<Rightarrow> Inl e
      | Inr d1 \<Rightarrow>
          (if \<not> (lines d1 > 0 \<and> columns d1 > 0) then Inl AssertFailed
           else if \<not> (usedLines d1 \<le> lines d1 \<and> usedColumns d1 \<le> columns d1) then Inl AssertFailed
           else
             (let d2 = d1\<lparr> image_size := lines d1 * columns d1 \<rparr>;
                  d3 = d2\<lparr> image := Some (map junk [0 ..< nat (image_size d2 + 1)]) \<rparr>
              in clearImage d3)))"

text \<open>The loop of \<^verbatim>\<open>updateImageSize\<close> that copies the old rows into the new image.\<close>

function copyLoop :: "Character list \<Rightarrow> int \<Rightarrow> Character list \<Rightarrow> int \<Rightarrow> int \<Rightarrow> int \<Rightarrow> int \<Rightarrow>
    error + Character list" where
  "copyLoop img columns' oldimg oldcol cols lins lin =
     (if lin < lins then
        (case memcpyCells img (columns' * lin) oldimg (oldcol * lin) cols of
           Inl e \<Rightarrow> Inl e
         | Inr img' \<Rightarrow> copyLoop img' columns' oldimg oldcol cols lins (lin + 1))
      else Inr img)"
  by pat_completeness auto
termination
  by (relation "measure (\<lambda>(img, columns', oldimg, oldcol, cols, lins, lin). nat (lins - lin))") auto

declare copyLoop.simps [simp del]

text \<open>
  \<^verbatim>\<open>updateImageSize\<close>. The signal emitted while \<^verbatim>\<open>resizing\<close> is set runs slots outside
  this class; the function leaves \<^verbatim>\<open>resizing\<close> false.
\<close>

definition updateImageSize :: "TerminalDisplay \<Rightarrow> (nat \<Rightarrow> Character) \<Rightarrow> error + TerminalDisplay" where
  "updateImageSize d junk =
     (let oldimg = image d; oldlin = lines d; oldcol = columns d
      in case makeImage d junk of
           Inl e \<Rightarrow> Inl e
         | Inr d1 \<Rightarrow>
             (let lins = min oldlin (lines d1); cols = min oldcol (columns d1)
              in case oldimg of
                   None \<Rightarrow> Inr (d1\<lparr> resizing := False \<rparr>)
                 | Some old \<Rightarrow>
                     (case image d1 of
                        None \<Rightarrow> Inl OutOfRange
                      | Some img \<Rightarrow>
                          (case copyLoop img (columns d1) old oldcol cols lins 0 of
                             Inl e \<Rightarrow> Inl e
                           | Inr img' \<Rightarrow> Inr (d1\<lparr> image := Some img', resizing := False \<rparr>)))))"

text \<open>
  The callers of \<^verbatim>\<open>updateImageSize\<close> and \<^verbatim>\<open>makeImage\<close>. \<^verbatim>\<open>resizeEvent\<close> runs when the
  toolkit has given the widget a new geometry: \<open>geom\<close> is what \<^verbatim>\<open>contentsRect()\<close> returns
  from then on, and the lines and columns are still those of the retained image.
  \<^verbatim>\<open>propagateSize\<close> resizes only the widget when the size is fixed.
  \<^verbatim>\<open>setScrollbarLocation\<close> calls \<^verbatim>\<open>calcGeometry\<close> itself before \<^verbatim>\<open>propagateSize\<close>.
  \<^verbatim>\<open>setFixedSize\<close> sets the lines and columns, frees the image and makes a new one. The
  calls that resize and repaint the widget are outside the model.
\<close>

definition resizeEvent :: "TerminalDisplay \<Rightarrow> QRect \<Rightarrow> (nat \<Rightarrow> Character) \<Rightarrow> error + TerminalDisplay" where
  "resizeEvent d geom junk = updateImageSize (d\<lparr> contentsRect := geom \<rparr>) junk"

definition propagateSize :: "TerminalDisplay \<Rightarrow> (nat \<Rightarrow> Character) \<Rightarrow> error + TerminalDisplay" where
  "propagateSize d junk =
     (if isFixedSize d then Inr d
      else if image d \<noteq> None then updateImageSize d junk
      else Inr d)"

definition setScrollbarLocation :: "TerminalDisplay \<Rightarrow> ScrollBarLocation \<Rightarrow> (nat \<Rightarrow> Character) \<Rightarrow>
    error + TerminalDisplay" where
  "setScrollbarLocation d loc' junk =
     (if scrollLoc d = loc' then Inr d
      else
        (case calcGeometry (d\<lparr> bY := 1, bX := 1, scrollLoc := loc' \<rparr>) of
           Inl e \<Rightarrow> Inl e
         | Inr d1 \<Rightarrow> propagateSize d1 junk))"

definition setFixedSize :: "TerminalDisplay \<Rightarrow> int \<Rightarrow> int \<Rightarrow> (nat \<Rightarrow> Character) \<Rightarrow>
    error + TerminalDisplay" where
  "setFixedSize d cols lins junk =
     (let d1 = d\<lparr> isFixedSize := True \<rparr>;
          d2 = d1\<lparr> columns := max 1 cols \<rparr>;
          d3 = d2\<lparr> lines := max 1 lins \<rparr>;
          d4 = d3\<lparr> usedColumns := min (usedColumns d3) (columns d3) \<rparr>;
          d5 = d4\<lparr> usedLines := min (usedLines d4) (lines d4) \<rparr>
      in if image d5 \<noteq> None then makeImage d5 junk else Inr d5)"

section \<open>\<^verbatim>\<open>scrollImage\<close> and \<^verbatim>\<open>updateImage\<close>\<close>

text \<open>
  \<^verbatim>\<open>scrollImage(lines)\<close>: the move of the retained cells; the scroll of the widget's
  pixels is outside the model.
\<close>

definition scrollImage :: "TerminalDisplay \<Rightarrow> int \<Rightarrow> error + TerminalDisplay" where
  "scrollImage d lines' =
     (case image d of
        None \<Rightarrow> Inr d
      | Some img \<Rightarrow>
          (if lines' = 0 \<or> \<bar>lines'\<bar> \<ge> usedLines d then Inr d
           else if lines' > 0 then
             (if \<not> (lines' * usedColumns d < image_size d) then Inl AssertFailed
              else
                (case memmoveCells img 0 (lines' * usedColumns d)
                        ((usedLines d - lines') * usedColumns d) of
                   Inl e \<Rightarrow> Inl e
                 | Inr img' \<Rightarrow> Inr (d\<lparr> image := Some img' \<rparr>)))
           else
             (case memmoveCells img (\<bar>lines'\<bar> * usedColumns d) 0
                     ((usedLines d - \<bar>lines'\<bar>) * usedColumns d) of
                Inl e \<Rightarrow> Inl e
              | Inr img' \<Rightarrow> Inr (d\<lparr> image := Some img' \<rparr>))))"

text \<open>The compared extent: \<^verbatim>\<open>qMin(this->lines, qMax(0,lines))\<close> and the same for columns.\<close>

definition linesToUpdateOf :: "TerminalDisplay \<Rightarrow> ScreenWindow \<Rightarrow> int" where
  "linesToUpdateOf d sw = min (lines d) (max 0 (windowLines sw))"

definition columnsToUpdateOf :: "TerminalDisplay \<Rightarrow> ScreenWindow \<Rightarrow> int" where
  "columnsToUpdateOf d sw = min (columns d) (max 0 (windowColumns sw))"

text \<open>The two rectangles that clear what a smaller used extent leaves behind.\<close>

definition clearLinesRect :: "TerminalDisplay \<Rightarrow> int \<Rightarrow> QRect" where
  "clearLinesRect d linesToUpdate =
     mkRect (bX d + rx (contentsRect d)) (bY d + ry (contentsRect d) + font_h d * linesToUpdate)
            (font_w d * columns d) (font_h d * (usedLines d - linesToUpdate))"

definition clearColumnsRect :: "TerminalDisplay \<Rightarrow> int \<Rightarrow> QRect" where
  "clearColumnsRect d columnsToUpdate =
     mkRect (bX d + rx (contentsRect d) + columnsToUpdate * font_w d) (bY d + ry (contentsRect d))
            (font_w d * (usedColumns d - columnsToUpdate)) (font_h d * lines d)"

text \<open>
  The first statements of \<^verbatim>\<open>updateImage\<close>: the retained image is scrolled by the
  scroll count of the window, and created if there is none.
\<close>

definition prepareImage :: "TerminalDisplay \<Rightarrow> ScreenWindow \<Rightarrow> (nat \<Rightarrow> Character) \<Rightarrow>
    error + TerminalDisplay" where
  "prepareImage d sw junk =
     (case scrollImage d (scrollCount sw) of
        Inl e \<Rightarrow> Inl e
      | Inr d1 \<Rightarrow> (if image d1 = None then updateImageSize d1 junk else Inr d1))"

text \<open>
  \<^verbatim>\<open>updateImage\<close>. It yields the display, the screen window with its scroll count
  reset, and the region passed to \<^verbatim>\<open>update(dirtyRegion)\<close>. The scroll bar, the blink
  timer and the resize notification are outside the model.
\<close>

definition updateImage :: "TerminalDisplay \<Rightarrow> ScreenWindow \<Rightarrow> (nat \<Rightarrow> Character) \<Rightarrow>
    error + (TerminalDisplay \<times> ScreenWindow \<times> QRegion)" where
  "updateImage d sw junk =
     (case prepareImage d sw junk of
        Inl e \<Rightarrow> Inl e
      | Inr d2 \<Rightarrow>
          (let sw1 = sw\<lparr> scrollCount := 0 \<rparr>
           in if \<not> usedLines d2 \<le> lines d2 then Inl AssertFailed
              else if \<not> usedColumns d2 \<le> columns d2 then Inl AssertFailed
              else
                (case image d2 of
                   None \<Rightarrow> Inl OutOfRange
                 | Some img \<Rightarrow>
                     (let linesToUpdate = linesToUpdateOf d2 sw1;
                          columnsToUpdate = columnsToUpdateOf d2 sw1
                      in case rowLoop d2 sw1 columnsToUpdate linesToUpdate 0 img [] False of
                           Inl e \<Rightarrow> Inl e
                         | Inr (img', region, hb) \<Rightarrow>
                             (let region1 = (if linesToUpdate < usedLines d2
                                             then region @ [clearLinesRect d2 linesToUpdate]
                                             else region);
                                  d3 = d2\<lparr> image := Some img', hasBlinker := hb,
                                           usedLines := linesToUpdate \<rparr>;
                                  region2 = (if columnsToUpdate < usedColumns d3
                                             then region1 @ [clearColumnsRect d3 columnsToUpdate]
                                             else region1)
                              in Inr (d3\<lparr> usedColumns := columnsToUpdate \<rparr>, sw1, region2))))))"

text \<open>
  The runs that the body of the row loop finds in row \<open>y\<close> when the retained image is
  \<open>img\<close>: the mask of the row, then its scan.
\<close>

definition rowRuns :: "TerminalDisplay \<Rightarrow> ScreenWindow \<Rightarrow> int \<Rightarrow> Character list \<Rightarrow> int \<Rightarrow>
    error + Run list" where
  "rowRuns d sw columnsToUpdate img y =
     (case dirtyMaskRow d y (newLineOf sw y) (currentLineOf d img y) columnsToUpdate of
        Inl e \<Rightarrow> Inl e
      | Inr dirtyMask \<Rightarrow>
          (case scanRow d (newLineOf sw y) dirtyMask columnsToUpdate False of
             Inl e \<Rightarrow> Inl e
           | Inr (hb, runs) \<Rightarrow> Inr runs))"

section \<open>The double-width probe of \<^verbatim>\<open>paintContents\<close>\<close>

text \<open>
  \<^verbatim>\<open>#define loc(X,Y) ((Y)*columns+(X))\<close> and the test
  \<^verbatim>\<open>image[ qMin(loc(x,y)+1,image_size) ].character == 0\<close> that \<^verbatim>\<open>paintContents\<close> makes
  for the cell at \<open>(x, y)\<close>, after it has read that cell itself.
\<close>

definition loc :: "TerminalDisplay \<Rightarrow> int \<Rightarrow> int \<Rightarrow> int" where
  "loc d X Y = Y * columns d + X"

definition probeIndex :: "TerminalDisplay \<Rightarrow> int \<Rightarrow> int \<Rightarrow> int" where
  "probeIndex d x y = min (loc d x y + 1) (image_size d)"

definition doubleWidthProbe :: "TerminalDisplay \<Rightarrow> int \<Rightarrow> int \<Rightarrow> error + bool" where
  "doubleWidthProbe d x y =
     (case image d of
        None \<Rightarrow> Inl OutOfRange
      | Some img \<Rightarrow>
          (case cellAt img (probeIndex d x y) of
             Inl e \<Rightarrow> Inl e
           | Inr c \<Rightarrow> Inr (character c = 0)))"

section \<open>The painter: \<^verbatim>\<open>paintContents\<close>\<close>

text \<open>
  What \<^verbatim>\<open>paintContents\<close> hands to \<^verbatim>\<open>drawAttrStr\<close> for one fragment of text: the row \<open>y\<close>
  and the column \<open>x\<close> of its first cell, its \<^verbatim>\<open>len\<close> and its text \<^verbatim>\<open>unistr\<close>. The scaling
  of the painter and the pixels drawn are outside the model.
\<close>

type_synonym Fragment = "int \<times> int \<times> int \<times> 16 word list"

text \<open>
  \<^verbatim>\<open>if (c) disstrU[p++] = c\<close>, where \<^verbatim>\<open>disstrU\<close> has \<^verbatim>\<open>usedColumns\<close> entries and \<open>p\<close> is
  the number of characters collected so far.
\<close>

definition putChar :: "TerminalDisplay \<Rightarrow> 16 word list \<Rightarrow> 16 word \<Rightarrow> error + 16 word list" where
  "putChar d str c =
     (if c = 0 then Inr str
      else if int (length str) < usedColumns d then Inr (str @ [c])
      else Inl OutOfRange)"

text \<open>
  The \<^verbatim>\<open>while\<close> loop that extends a fragment to the right, up to the column \<^verbatim>\<open>rlx\<close>: the
  tests of its \<^verbatim>\<open>&&\<close> chain are made in order, the cell behind the next one is read only
  when the colours and the rendition agree with the head of the fragment.
\<close>

function paintRun :: "TerminalDisplay \<Rightarrow> Character list \<Rightarrow> int \<Rightarrow> int \<Rightarrow> int \<Rightarrow> RunHead \<Rightarrow> int \<Rightarrow>
    16 word list \<Rightarrow> error + (int \<times> 16 word list)" where
  "paintRun d img rlx x y h len str =
     (if x + len \<le> rlx then
        (case cellAt img (loc d (x + len) y) of
           Inl e \<Rightarrow> Inl e
         | Inr ch \<Rightarrow>
            (if foregroundColor ch \<noteq> cf h \<or> backgroundColor ch \<noteq> cb h
                \<or> uint (rendition ch) \<noteq> cr h
             then Inr (len, str)
             else
               (case cellAt img (probeIndex d (x + len) y) of
                  Inl e \<Rightarrow> Inl e
                | Inr nx \<Rightarrow>
                   (if (character nx = 0) \<noteq> doubleWidth h
                       \<or> isLineChar (character ch) \<noteq> lineDraw h
                    then Inr (len, str)
                    else
                      (case putChar d str (character ch) of
                         Inl e \<Rightarrow> Inl e
                       | Inr str' \<Rightarrow>
                           paintRun d img rlx x y h (if doubleWidth h then len + 2 else len + 1)
                             str')))))
      else Inr (len, str))"
  by pat_completeness auto
termination
  by (relation "measure (\<lambda>(d, img, rlx, x, y, h, len, str). nat (rlx + 1 - x - len))") auto

declare paintRun.simps [simp del]

text \<open>
  \<^verbatim>\<open>if ((x+len < usedColumns) && (!image[loc(x+len,y)].character)) len++\<close>.
\<close>

definition trailingPart :: "TerminalDisplay \<Rightarrow> Character list \<Rightarrow> int \<Rightarrow> int \<Rightarrow> int \<Rightarrow> error + int" where
  "trailingPart d img x y len =
     (if x + len < usedColumns d then
        (case cellAt img (loc d (x + len) y) of
           Inl e \<Rightarrow> Inl e
         | Inr t \<Rightarrow> Inr (if character t = 0 then len + 1 else len))
      else Inr len)"

text \<open>
  \<^verbatim>\<open>if (y < lineProperties.size())\<close> and \<^verbatim>\<open>lineProperties[y] & LINE_DOUBLEHEIGHT\<close> as
  \<^verbatim>\<open>paintContents\<close> tests them after a fragment is painted.
\<close>

definition doubleHeightLine :: "TerminalDisplay \<Rightarrow> int \<Rightarrow> error + bool" where
  "doubleHeightLine d y =
     (if y < int (length (lineProperties d)) then
        (if y < 0 then Inl OutOfRange
         else Inr ((lineProperties d ! nat y AND LINE_DOUBLEHEIGHT) \<noteq> 0))
      else Inr False)"

text \<open>
  The loop \<^verbatim>\<open>for (; x <= rlx; x++)\<close> of \<^verbatim>\<open>paintContents\<close>. Each pass paints one fragment
  and then, inside the same pass, increments \<open>y\<close> when the line of the fragment has the
  double-height flag; the next pass reads the cells of the line that \<open>y\<close> names then. The
  result is the value of \<open>y\<close> at the end of the loop and the fragments painted.
\<close>

function paintLine :: "TerminalDisplay \<Rightarrow> Character list \<Rightarrow> int \<Rightarrow> int \<Rightarrow> int \<Rightarrow> Fragment list \<Rightarrow>
    error + (int \<times> Fragment list)" where
  "paintLine d img rlx x y frags =
     (if x \<le> rlx then
        (case cellAt img (loc d x y) of
           Inl e \<Rightarrow> Inl e
         | Inr ch \<Rightarrow>
            (case putChar d [] (character ch) of
               Inl e \<Rightarrow> Inl e
             | Inr str \<Rightarrow>
                (case cellAt img (probeIndex d x y) of
                   Inl e \<Rightarrow> Inl e
                 | Inr nx \<Rightarrow>
                    (case paintRun d img rlx x y (runHead ch nx) 1 str of
                       Inl e \<Rightarrow> Inl e
                     | Inr (len, unistr) \<Rightarrow>
                        (case trailingPart d img x y len of
                           Inl e \<Rightarrow> Inl e
                         | Inr len' \<Rightarrow>
                            (case doubleHeightLine d y of
                               Inl e \<Rightarrow> Inl e
                             | Inr dh \<Rightarrow>
                                 paintLine d img rlx (x + len') (if dh then y + 1 else y)
                                   (frags @ [(y, x, len', unistr)])))))))
      else Inr (y, frags))"
  by pat_completeness auto
termination
proof (relation "measure (\<lambda>(d, img, rlx, x, y, frags). nat (rlx + 1 - x))")
  have grows: "paintRun d img rlx x y h len str = Inr (len', str') \<Longrightarrow> len \<le> len'"
    for d img rlx x y h len str len' str'
  proof (induction d img rlx x y h len str rule: paintRun.induct)
    case (1 d img rlx x y h len str)
    note unf = paintRun.simps[of d img rlx x y h len str]
    show ?case
    proof (cases "x + len \<le> rlx")
      case False
      with "1.prems" show ?thesis by (simp add: unf)
    next
      case True
      then obtain ch where ch: "cellAt img (loc d (x + len) y) = Inr ch"
        using "1.prems" by (cases "cellAt img (loc d (x + len) y)") (simp_all add: unf)
      show ?thesis
      proof (cases "foregroundColor ch \<noteq> cf h \<or> backgroundColor ch \<noteq> cb h
                \<or> uint (rendition ch) \<noteq> cr h")
        case br: True
        with True ch "1.prems" show ?thesis by (simp add: unf)
      next
        case nb: False
        then obtain nx where nx: "cellAt img (probeIndex d (x + len) y) = Inr nx"
          using True ch "1.prems"
          by (cases "cellAt img (probeIndex d (x + len) y)") (simp_all add: unf)
        show ?thesis
        proof (cases "(character nx = 0) \<noteq> doubleWidth h
                       \<or> isLineChar (character ch) \<noteq> lineDraw h")
          case br2: True
          with True ch nb nx "1.prems" show ?thesis by (simp add: unf)
        next
          case nb2: False
          then obtain s where s: "putChar d str (character ch) = Inr s"
            using True ch nb nx "1.prems"
            by (cases "putChar d str (character ch)") (simp_all add: unf)
          with True ch nb nx nb2 "1.prems"
          have "paintRun d img rlx x y h (if doubleWidth h then len + 2 else len + 1) s = Inr (len', str')"
            by (simp add: unf)
          from "1.IH"[OF True ch nb nx nb2 s this] show ?thesis by (simp split: if_splits)
        qed
      qed
    qed
  qed
  fix d :: TerminalDisplay and img :: "Character list" and rlx x y :: int
    and frags :: "Fragment list" and ch nx :: Character and str unistr :: "16 word list"
    and r :: "int \<times> 16 word list" and len len' :: int and dh :: bool
  assume "x \<le> rlx"
    and "paintRun d img rlx x y (runHead ch nx) 1 str = Inr r"
    and "(len, unistr) = r"
    and "trailingPart d img x y len = Inr len'"
  then have "1 \<le> len" using grows by metis
  moreover have "len \<le> len'" using \<open>trailingPart d img x y len = Inr len'\<close>
    by (auto simp: trailingPart_def split: if_splits sum.splits)
  ultimately
  show "((d, img, rlx, x + len', if dh then y + 1 else y, frags @ [(y, x, len', unistr)]),
         (d, img, rlx, x, y, frags))
        \<in> measure (\<lambda>(d, img, rlx, x, y, frags). nat (rlx + 1 - x))"
    using \<open>x \<le> rlx\<close> by simp
qed auto

declare paintLine.simps [simp del]


text \<open>
  The loop \<^verbatim>\<open>for (int y = luy; y <= rly; y++)\<close>: the search for the start of a
  multi-column character, then the loop over \<open>x\<close>. The result lists the values of \<open>y\<close>
  at which a pass of this loop started, and the fragments painted.
\<close>

function paintRows :: "TerminalDisplay \<Rightarrow> Character list \<Rightarrow> int \<Rightarrow> int \<Rightarrow> int \<Rightarrow> int \<Rightarrow> int list \<Rightarrow>
    Fragment list \<Rightarrow> error + (int list \<times> Fragment list)" where
  "paintRows d img lux rlx rly y rows frags =
     (if y \<le> rly then
        (case cellAt img (loc d lux y) of
           Inl e \<Rightarrow> Inl e
         | Inr ch \<Rightarrow>
            (case paintLine d img rlx (if character ch = 0 \<and> lux \<noteq> 0 then lux - 1 else lux) y frags of
               Inl e \<Rightarrow> Inl e
             | Inr (y', frags') \<Rightarrow> paintRows d img lux rlx rly (y' + 1) (rows @ [y]) frags'))
      else Inr (rows, frags))"
  by pat_completeness auto
termination
proof (relation "measure (\<lambda>(d, img, lux, rlx, rly, y, rows, frags). nat (rly + 1 - y))")
  have down: "paintLine d img rlx x y frags = Inr (y', frags') \<Longrightarrow> y \<le> y'"
    for d img rlx x y frags y' frags'
  proof (induction d img rlx x y frags rule: paintLine.induct)
    case (1 d img rlx x y frags)
    note unf = paintLine.simps[of d img rlx x y frags]
    show ?case
    proof (cases "x \<le> rlx")
      case False
      with "1.prems" show ?thesis by (simp add: unf)
    next
      case True
      with "1.prems" obtain ch str nx len unistr len' dh where
        s: "cellAt img (loc d x y) = Inr ch" "putChar d [] (character ch) = Inr str"
          "cellAt img (probeIndex d x y) = Inr nx"
          "paintRun d img rlx x y (runHead ch nx) 1 str = Inr (len, unistr)"
          "trailingPart d img x y len = Inr len'" "doubleHeightLine d y = Inr dh"
        and r: "paintLine d img rlx (x + len') (if dh then y + 1 else y)
                  (frags @ [(y, x, len', unistr)]) = Inr (y', frags')"
        by (auto simp: unf split: sum.splits)
      from "1.IH"[OF True s(1) s(2) s(3) s(4) _ s(5) s(6) r] show ?thesis
        by (simp split: if_splits)
    qed
  qed
  fix d :: TerminalDisplay and img :: "Character list" and lux rlx rly y :: int
    and rows :: "int list" and frags frags' :: "Fragment list" and ch :: Character
    and r :: "int \<times> Fragment list" and y' :: int
  assume "y \<le> rly"
    and "paintLine d img rlx (if character ch = 0 \<and> lux \<noteq> 0 then lux - 1 else lux) y frags = Inr r"
    and "(y', frags') = r"
  then have "y \<le> y'" using down by metis
  then show "((d, img, lux, rlx, rly, y' + 1, rows @ [y], frags'),
         (d, img, lux, rlx, rly, y, rows, frags))
        \<in> measure (\<lambda>(d, img, lux, rlx, rly, y, rows, frags). nat (rly + 1 - y))"
    using \<open>y \<le> rly\<close> by simp
qed auto

declare paintRows.simps [simp del]

text \<open>
  \<^verbatim>\<open>paintContents(paint, rect)\<close>: \<^verbatim>\<open>rect.right()\<close> is \<open>rx + rw - 1\<close> and \<^verbatim>\<open>rect.bottom()\<close>
  is \<open>ry + rh - 1\<close>.
\<close>

definition paintContents :: "TerminalDisplay \<Rightarrow> QRect \<Rightarrow> error + (int list \<times> Fragment list)" where
  "paintContents d rect =
     (if font_w d = 0 \<or> font_h d = 0 then Inl DivByZero
      else
        (let tLx = rx (contentsRect d);
             tLy = ry (contentsRect d);
             lux = min (usedColumns d - 1) (max 0 (cdiv (rx rect - tLx - bX d) (font_w d)));
             luy = min (usedLines d - 1) (max 0 (cdiv (ry rect - tLy - bY d) (font_h d)));
             rlx = min (usedColumns d - 1)
                     (max 0 (cdiv (rx rect + rw rect - 1 - tLx - bX d) (font_w d)));
             rly = min (usedLines d - 1)
                     (max 0 (cdiv (ry rect + rh rect - 1 - tLy - bY d) (font_h d)))
         in case image d of
              None \<Rightarrow> (if luy \<le> rly then Inl OutOfRange else Inr ([], []))
            | Some img \<Rightarrow> paintRows d img lux rlx rly luy [] []))"

section \<open>The shape of the retained image\<close>

text \<open>
  What \<^verbatim>\<open>makeImage\<close> sets up and the asserts of \<^verbatim>\<open>makeImage\<close> and \<^verbatim>\<open>updateImage\<close>
  demand of a display that has an image: \<^verbatim>\<open>image_size\<close> is \<^verbatim>\<open>lines*columns\<close>, the
  array has one cell more, that last cell is the blank cell, and the used extent lies
  inside the grid.
\<close>

definition imageInv :: "TerminalDisplay \<Rightarrow> bool" where
  "imageInv d =
     (case image d of
        None \<Rightarrow> True
      | Some img \<Rightarrow>
          0 < lines d \<and> 0 < columns d \<and> image_size d = lines d * columns d \<and>
          int (length img) = image_size d + 1 \<and> img ! nat (image_size d) = blankCell \<and>
          usedLines d \<le> lines d \<and> usedColumns d \<le> columns d)"

section \<open>The history line store\<close>

text \<open>
  Modelled from the spec: the sources hold only the declaration of the class
  \<^verbatim>\<open>HistoryScrollFile\<close> (its members \<^verbatim>\<open>_index\<close>, \<^verbatim>\<open>_cells\<close>, \<^verbatim>\<open>_lineflags\<close> and the
  signatures of its methods); the bodies are missing. The store is the three parallel
  arrays of section 4.1 of the spec: the index array of offsets, one entry per line
  boundary, the cell array, and the flag array with one byte per line.
\<close>

record HistoryScrollFile =
  hIndex :: "int list"
  hCells :: "Character list"
  hLineflags :: "8 word list"

text \<open>
  Modelled from the spec: the constructor's body is missing. A store without lines has
  the one boundary 0 and no cells, so that line \<open>k\<close> lies between the entries \<open>k\<close> and
  \<open>k + 1\<close> of the index array, as the spec's formula for \<^verbatim>\<open>getLineLen\<close> reads them.
\<close>

definition emptyHistory :: HistoryScrollFile where
  "emptyHistory = \<lparr> hIndex = [0], hCells = [], hLineflags = [] \<rparr>"

text \<open>
  Modelled from the spec: the body of \<^verbatim>\<open>getLines\<close> is missing. The number of lines is
  the number of flag bytes (one per line).
\<close>

definition getLines :: "HistoryScrollFile \<Rightarrow> int" where
  "getLines h = int (length (hLineflags h))"

text \<open>
  Modelled from the spec: the body of \<^verbatim>\<open>startOfLine\<close> is missing. It reads entry
  \<open>lineno\<close> of the index array; an index outside the array is a contract violation.
\<close>

definition startOfLine :: "HistoryScrollFile \<Rightarrow> int \<Rightarrow> error + int" where
  "startOfLine h lineno =
     (if 0 \<le> lineno \<and> lineno < int (length (hIndex h)) then Inr (hIndex h ! nat lineno)
      else Inl OutOfRange)"

text \<open>
  Modelled from the spec: the body of \<^verbatim>\<open>getLineLen\<close> is missing. The spec gives
  \<^verbatim>\<open>getLineLen(lineno) = index[lineno+1] - index[lineno]\<close>, for \<^verbatim>\<open>0 <= lineno < getLines()\<close>.
\<close>

definition getLineLen :: "HistoryScrollFile \<Rightarrow> int \<Rightarrow> error + int" where
  "getLineLen h lineno =
     (if \<not> (0 \<le> lineno \<and> lineno < getLines h) then Inl OutOfRange
      else
        (case startOfLine h (lineno + 1) of
           Inl e \<Rightarrow> Inl e
         | Inr e1 \<Rightarrow>
             (case startOfLine h lineno of
                Inl e \<Rightarrow> Inl e
              | Inr e0 \<Rightarrow> Inr (e1 - e0))))"

text \<open>
  Modelled from the spec: the body of \<^verbatim>\<open>getCells\<close> is missing. It copies \<open>count\<close>
  cells starting at \<^verbatim>\<open>index[lineno] + colno\<close> from the cell array and fails with an
  out-of-range error unless \<^verbatim>\<open>colno + count <= getLineLen(lineno)\<close>.
\<close>

definition getCells :: "HistoryScrollFile \<Rightarrow> int \<Rightarrow> int \<Rightarrow> int \<Rightarrow> error + Character list" where
  "getCells h lineno colno count =
     (case getLineLen h lineno of
        Inl e \<Rightarrow> Inl e
      | Inr len \<Rightarrow>
          (if colno < 0 \<or> count < 0 \<or> len < colno + count then Inl OutOfRange
           else
             (case startOfLine h lineno of
                Inl e \<Rightarrow> Inl e
              | Inr start \<Rightarrow>
                  (if start + colno < 0 \<or> int (length (hCells h)) < start + colno + count
                   then Inl OutOfRange
                   else Inr (take (nat count) (drop (nat (start + colno)) (hCells h)))))))"

text \<open>
  Modelled from the spec: the body of \<^verbatim>\<open>addCells\<close> is missing. It appends the first
  \<open>count\<close> cells of \<open>text\<close> to the cell array.
\<close>

definition addCells :: "HistoryScrollFile \<Rightarrow> Character list \<Rightarrow> int \<Rightarrow> error + HistoryScrollFile" where
  "addCells h text' count =
     (if count < 0 \<or> int (length text') < count then Inl OutOfRange
      else Inr (h\<lparr> hCells := hCells h @ take (nat count) text' \<rparr>))"

text \<open>
  Modelled from the spec: the body of \<^verbatim>\<open>addLine\<close> is missing. It appends a new index
  boundary (the end of the cell array) and a flag byte holding the wrapped flag.
\<close>

definition addLine :: "HistoryScrollFile \<Rightarrow> bool \<Rightarrow> HistoryScrollFile" where
  "addLine h previousWrapped =
     h\<lparr> hIndex := hIndex h @ [int (length (hCells h))],
        hLineflags := hLineflags h @ [if previousWrapped then 1 else 0] \<rparr>"

text \<open>A run of \<^verbatim>\<open>addCells\<close> calls, each with its array and its count.\<close>

fun addCellsRun :: "HistoryScrollFile \<Rightarrow> (Character list \<times> int) list \<Rightarrow> error + HistoryScrollFile" where
  "addCellsRun h [] = Inr h"
| "addCellsRun h ((text', count) # rest) =
     (case addCells h text' count of
        Inl e \<Rightarrow> Inl e
      | Inr h' \<Rightarrow> addCellsRun h' rest)"

text \<open>The cells that a run of \<^verbatim>\<open>addCells\<close> calls hands over, in order.\<close>

definition cellsWritten :: "(Character list \<times> int) list \<Rightarrow> Character list" where
  "cellsWritten calls = concat (map (\<lambda>(text', count). take (nat count) text') calls)"

text \<open>
  The stores that the appending operations reach from the empty store: the index array
  starts at 0, ascends, ends inside the cell array, and has one entry more than there are
  flag bytes. \<open>pendingCells\<close> are the cells appended since the last \<^verbatim>\<open>addLine\<close>.
\<close>

definition historyInv :: "HistoryScrollFile \<Rightarrow> bool" where
  "historyInv h =
     (hIndex h \<noteq> [] \<and> hd (hIndex h) = 0 \<and> sorted (hIndex h) \<and>
      last (hIndex h) \<le> int (length (hCells h)) \<and>
      length (hIndex h) = length (hLineflags h) + 1)"

definition pendingCells :: "HistoryScrollFile \<Rightarrow> Character list" where
  "pendingCells h = drop (nat (last (hIndex h))) (hCells h)"

section \<open>The display as the constructor leaves it\<close>

text \<open>
  The initialiser list of \<^verbatim>\<open>TerminalDisplay::TerminalDisplay\<close>: one line and one column,
  fonts of size 1, no image, no input composition, and \<^verbatim>\<open>bY = bX = 1\<close> from the body.
  The constructor leaves \<^verbatim>\<open>image_size\<close> and \<^verbatim>\<open>hasBlinker\<close> unset; they are 0 and false
  here. The geometry of the widget is given.
\<close>

definition initialDisplay :: "QRect \<Rightarrow> int \<Rightarrow> TerminalDisplay" where
  "initialDisplay geom sbw =
     \<lparr> lines = 1, columns = 1, usedLines = 1, usedColumns = 1,
       contentHeight = 1, contentWidth = 1, image = None, image_size = 0,
       font_h = 1, font_w = 1, bX = 1, bY = 1, rimX = 1, rimY = 1,
       scrollLoc = SCROLLBAR_NONE, isFixedSize = False, resizing = False, hasBlinker = False,
       lineProperties = [], m_imPreeditLength = 0, m_imStart = 0, m_imStartLine = 0,
       m_imEnd = 0, m_imSelStart = 0, m_imSelEnd = 0,
       contentsRect = geom, scrollbarWidth = sbw \<rparr>"

text \<open>
  A display with fonts of size 1 whose grid of \<open>l\<close> lines and \<open>c\<close> columns is in full
  use, with the retained image and the line properties given.
\<close>

definition gridDisplay :: "int \<Rightarrow> int \<Rightarrow> Character list \<Rightarrow> 8 word list \<Rightarrow> TerminalDisplay" where
  "gridDisplay l c img props =
     (initialDisplay (mkRect 0 0 (c + 2) (l + 1)) 0)
       \<lparr> lines := l, columns := c, usedLines := l, usedColumns := c,
         image := Some img, image_size := l * c, lineProperties := props \<rparr>"

text \<open>Memory that holds blank cells, and the blank cell with another code point.\<close>

definition blankJunk :: "nat \<Rightarrow> Character" where
  "blankJunk i = blankCell"

definition glyph :: "16 word \<Rightarrow> Character" where
  "glyph c = blankCell\<lparr> character := c \<rparr>"

text \<open>A letter in another rendition than the blank cell has.\<close>

definition bold :: "16 word \<Rightarrow> Character" where
  "bold c = blankCell\<lparr> character := c, rendition := 1 \<rparr>"

text \<open>The image of a grid of two lines and three columns that holds the letters a to f.\<close>

definition sixCells :: "Character list" where
  "sixCells = [glyph 0x61, glyph 0x62, glyph 0x63, glyph 0x64, glyph 0x65, glyph 0x66, blankCell]"

section \<open>Regions without points\<close>

lemma rectIsEmpty_points: "rectIsEmpty q \<longleftrightarrow> rectPoints q = {}"
proof
  assume "rectIsEmpty q"
  then show "rectPoints q = {}" by (auto simp: rectIsEmpty_def rectPoints_def)
next
  assume e: "rectPoints q = {}"
  show "rectIsEmpty q"
  proof (rule ccontr)
    assume "\<not> rectIsEmpty q"
    then have "(rx q, ry q) \<in> rectPoints q" by (simp add: rectIsEmpty_def rectPoints_def)
    with e show False by simp
  qed
qed

lemma regionIsEmpty_points: "regionIsEmpty r \<longleftrightarrow> regionPoints r = {}"
  by (auto simp: regionIsEmpty_def regionPoints_def list_all_iff rectIsEmpty_points)

section \<open>Properties of the dirty mask\<close>

lemma length_markDirty [simp]: "length (markDirty m x) = length m"
  by (simp add: markDirty_def)

lemma nth_markDirty:
  "0 \<le> x \<Longrightarrow> k < length m \<Longrightarrow>
   markDirty m x ! k = (m ! k \<or> k = nat x \<or> k = nat x + 1 \<or> k = nat x + 2)"
  by (cases "k = nat x"; cases "k = nat x + 1"; cases "k = nat x + 2")
     (simp_all add: markDirty_def nat_add_distrib)

lemma ex_from_split:
  "(x::int) < n \<Longrightarrow> (\<exists>c. x \<le> c \<and> c < n \<and> P c) = (P x \<or> (\<exists>c. x + 1 \<le> c \<and> c < n \<and> P c))"
  by (metis add1_zle_eq order_le_less)

lemma dirtyLoop_mask:
  "dirtyLoop d y nl cl n x m = Inr m' \<Longrightarrow> 0 \<le> x \<Longrightarrow>
   length m' = length m \<and>
   (\<forall>k < length m. m' ! k =
      (m ! k \<or> (\<exists>c. x \<le> c \<and> c < n \<and> (imSpan d y c \<or> nl c \<noteq> cl c) \<and>
                    (k = nat c \<or> k = nat c + 1 \<or> k = nat c + 2))))"
proof (induction d y nl cl n x m rule: dirtyLoop.induct)
  case (1 d y nl cl n x m)
  note unf = dirtyLoop.simps[of d y nl cl n x m]
  show ?case
  proof (cases "x < n")
    case False
    with "1.prems" have "m' = m" by (simp add: unf)
    with False show ?thesis by auto
  next
    case xn: True
    show ?thesis
    proof (cases "imSpan d y x")
      case True
      with xn "1.prems" have r: "dirtyLoop d y nl cl n (x + 1) (markDirty m x) = Inr m'"
        by (simp add: unf)
      from "1.IH"(1)[OF xn True r] "1.prems"(2)
      have ih: "length m' = length m"
        "\<And>k. k < length m \<Longrightarrow> m' ! k =
          (markDirty m x ! k \<or> (\<exists>c. x + 1 \<le> c \<and> c < n \<and> (imSpan d y c \<or> nl c \<noteq> cl c) \<and>
                    (k = nat c \<or> k = nat c + 1 \<or> k = nat c + 2)))"
        by auto
      show ?thesis
      proof (intro conjI allI impI)
        show "length m' = length m" by (rule ih)
      next
        fix k assume k: "k < length m"
        show "m' ! k = (m ! k \<or> (\<exists>c. x \<le> c \<and> c < n \<and> (imSpan d y c \<or> nl c \<noteq> cl c) \<and>
                    (k = nat c \<or> k = nat c + 1 \<or> k = nat c + 2)))"
          unfolding ex_from_split[OF xn] ih(2)[OF k] nth_markDirty[OF "1.prems"(2) k]
          using True by auto
      qed
    next
      case False
      from xn False "1.prems" obtain a b where ab: "nl x = Inr a" "cl x = Inr b"
        and r: "dirtyLoop d y nl cl n (x + 1) (if a \<noteq> b then markDirty m x else m) = Inr m'"
        by (auto simp: unf split: sum.splits)
      from "1.IH"(2)[OF xn False ab r] "1.prems"(2)
      have ih: "length m' = length m"
        "\<And>k. k < length m \<Longrightarrow> m' ! k =
          ((if a \<noteq> b then markDirty m x else m) ! k \<or>
           (\<exists>c. x + 1 \<le> c \<and> c < n \<and> (imSpan d y c \<or> nl c \<noteq> cl c) \<and>
                    (k = nat c \<or> k = nat c + 1 \<or> k = nat c + 2)))"
        by auto
      show ?thesis
      proof (intro conjI allI impI)
        show "length m' = length m" by (rule ih)
      next
        fix k assume k: "k < length m"
        show "m' ! k = (m ! k \<or> (\<exists>c. x \<le> c \<and> c < n \<and> (imSpan d y c \<or> nl c \<noteq> cl c) \<and>
                    (k = nat c \<or> k = nat c + 1 \<or> k = nat c + 2)))"
          unfolding ex_from_split[OF xn] ih(2)[OF k]
          using False ab nth_markDirty[OF "1.prems"(2) k] by auto
      qed
    qed
  qed
qed

lemma dirtyMaskRow_maskAt:
  assumes "dirtyMaskRow d y nl cl n = Inr dm" and "-1 \<le> x" and "x \<le> n"
  shows "length dm = nat (n + 2)"
    and "maskAt dm x = (\<exists>c. 0 \<le> c \<and> c < n \<and> \<bar>x - c\<bar> \<le> 1 \<and> (imSpan d y c \<or> nl c \<noteq> cl c))"
proof -
  from assms(1) have r: "dirtyLoop d y nl cl n 0 (replicate (nat (n + 2)) False) = Inr dm"
    by (simp add: dirtyMaskRow_def)
  from dirtyLoop_mask[OF r] have len: "length dm = nat (n + 2)"
    and nth: "\<And>k. k < nat (n + 2) \<Longrightarrow> dm ! k =
       (\<exists>c. 0 \<le> c \<and> c < n \<and> (imSpan d y c \<or> nl c \<noteq> cl c) \<and>
                    (k = nat c \<or> k = nat c + 1 \<or> k = nat c + 2))"
    by auto
  show "length dm = nat (n + 2)" by (rule len)
  have k: "nat (x + 1) < nat (n + 2)" using assms(2,3) by simp
  have eq: "\<And>c. 0 \<le> c \<Longrightarrow> (nat (x + 1) = nat c \<or> nat (x + 1) = nat c + 1 \<or> nat (x + 1) = nat c + 2)
      = (\<bar>x - c\<bar> \<le> 1)"
    using assms(2) by auto
  show "maskAt dm x = (\<exists>c. 0 \<le> c \<and> c < n \<and> \<bar>x - c\<bar> \<le> 1 \<and> (imSpan d y c \<or> nl c \<noteq> cl c))"
    unfolding maskAt_def nth[OF k] using eq by auto
qed





section \<open>Properties of the scan for runs\<close>

lemma runLoop_extent:
  "runLoop nl dm x lln h len dis = Inr (len', dis') \<Longrightarrow> len \<le> lln \<Longrightarrow>
   len \<le> len' \<and> len' \<le> lln \<and>
   (\<forall>l. len \<le> l \<and> l < len' \<longrightarrow> continuation nl (x + l) \<or> coalesces nl dm h (x + l)) \<and>
   (len' < lln \<longrightarrow> \<not> continuation nl (x + len') \<and> \<not> coalesces nl dm h (x + len'))"
proof (induction nl dm x lln h len dis rule: runLoop.induct)
  case (1 newLine dm x lln h len dis)
  note unf = runLoop.simps[of newLine dm x lln h len dis]
  show ?case
  proof (cases "len < lln")
    case False
    with "1.prems" have "len' = len" by (simp add: unf)
    with False "1.prems"(2) show ?thesis by auto
  next
    case True
    then obtain ch where ch: "newLine (x + len) = Inr ch"
      using "1.prems" by (cases "newLine (x + len)") (simp_all add: unf)
    have step: "\<And>P. (\<forall>l. len \<le> l \<and> l < len' \<longrightarrow> P l) = ((len < len' \<longrightarrow> P len) \<and> (\<forall>l. len + 1 \<le> l \<and> l < len' \<longrightarrow> P l))"
      by (metis add1_zle_eq order_le_less)
    show ?thesis
    proof (cases "character ch = 0")
      case z: True
      with True ch "1.prems" have r: "runLoop newLine dm x lln h (len + 1) dis = Inr (len', dis')"
        by (simp add: unf)
      have c: "continuation newLine (x + len)" using ch z by (simp add: continuation_def)
      from "1.IH"(1)[OF True ch z r] True c show ?thesis
        unfolding step[of "\<lambda>l. continuation newLine (x + l) \<or> coalesces newLine dm h (x + l)"]
        by auto
    next
      case nz: False
      have nc: "\<not> continuation newLine (x + len)" using ch nz by (simp add: continuation_def)
      show ?thesis
      proof (cases "foregroundColor ch \<noteq> cf h \<or> backgroundColor ch \<noteq> cb h
                     \<or> uint (rendition ch) \<noteq> cr h \<or> \<not> maskAt dm (x + len)
                     \<or> isLineChar (character ch) \<noteq> lineDraw h")
        case br: True
        with True ch nz "1.prems" have e: "len' = len" by (simp add: unf)
        from br ch have "\<not> coalesces newLine dm h (x + len)"
          by (auto simp: coalesces_def)
        with e nc True show ?thesis by auto
      next
        case nb: False
        then obtain nx where nx: "newLine (x + len + 1) = Inr nx"
          using True ch nz "1.prems" by (cases "newLine (x + len + 1)") (simp_all add: unf)
        show ?thesis
        proof (cases "(character nx = 0) \<noteq> doubleWidth h")
          case dw: True
          with \<open>len < lln\<close> ch nz nb nx "1.prems" have e: "len' = len" by (simp add: unf)
          from dw ch nx have "\<not> coalesces newLine dm h (x + len)"
            by (auto simp: coalesces_def)
          with e nc True show ?thesis by auto
        next
          case False
          with \<open>len < lln\<close> ch nz nb nx "1.prems"
          have r: "runLoop newLine dm x lln h (len + 1) (dis @ [character ch]) = Inr (len', dis')"
            by (simp add: unf)
          from False nb ch nx have c: "coalesces newLine dm h (x + len)"
            by (auto simp: coalesces_def)
          from "1.IH"(2)[OF \<open>len < lln\<close> ch nz nb nx False r] True c show ?thesis
            unfolding step[of "\<lambda>l. continuation newLine (x + l) \<or> coalesces newLine dm h (x + l)"]
            by auto
        qed
      qed
    qed
  qed
qed






section \<open>Properties of the block copies and of the row loop\<close>

lemma splice_nth:
  assumes "a + m \<le> length dst" and "b + m \<le> length src" and "k < length dst"
  shows "(take a dst @ take m (drop b src) @ drop (a + m) dst) ! k =
         (if k < a then dst ! k else if k < a + m then src ! (b + (k - a)) else dst ! k)"
proof -
  have la: "length (take a dst) = a" using assms(1) by simp
  have lm: "length (take m (drop b src)) = m" using assms(2) by simp
  show ?thesis
  proof (cases "k < a")
    case True
    then show ?thesis using la by (simp add: nth_append)
  next
    case False
    show ?thesis
    proof (cases "k < a + m")
      case True
      with False have "k - a < m" by simp
      with False True la lm show ?thesis by (simp add: nth_append)
    next
      case nlt: False
      from False nlt have ge: "\<not> k - a < m" by simp
      have "(take a dst @ take m (drop b src) @ drop (a + m) dst) ! k
          = (take m (drop b src) @ drop (a + m) dst) ! (k - a)"
        using False la by (simp add: nth_append)
      also have "\<dots> = drop (a + m) dst ! (k - a - m)"
        using ge lm by (simp add: nth_append)
      also have "\<dots> = dst ! k" using nlt False assms by simp
      finally show ?thesis using False nlt by simp
    qed
  qed
qed

lemma memcpyCells_length:
  "memcpyCells dst di src si n = Inr dst' \<Longrightarrow> length dst' = length dst"
  by (auto simp: memcpyCells_def split: if_splits)

lemma memcpyCells_nth:
  assumes "memcpyCells dst di src si n = Inr dst'" and "0 \<le> k" and "k < int (length dst)"
  shows "dst' ! nat k = (if di \<le> k \<and> k < di + n then src ! nat (si + (k - di)) else dst ! nat k)"
proof (cases "n = 0")
  case True
  with assms show ?thesis by (auto simp: memcpyCells_def)
next
  case False
  with assms(1) have b: "0 < n" "0 \<le> di" "0 \<le> si" "di + n \<le> int (length dst)" "si + n \<le> int (length src)"
    and e: "dst' = take (nat di) dst @ take (nat n) (drop (nat si) src) @ drop (nat (di + n)) dst"
    by (auto simp: memcpyCells_def split: if_splits)
  have s: "nat (di + n) = nat di + nat n" using b by (simp add: nat_add_distrib)
  have 1: "nat di + nat n \<le> length dst" using b by linarith
  have 2: "nat si + nat n \<le> length src" using b by linarith
  have 3: "nat k < length dst" using assms by linarith
  have "dst' ! nat k = (if nat k < nat di then dst ! nat k
      else if nat k < nat di + nat n then src ! (nat si + (nat k - nat di)) else dst ! nat k)"
    unfolding e s by (rule splice_nth[OF 1 2 3])
  moreover have "nat k < nat di \<longleftrightarrow> k < di" using assms(2) b by linarith
  moreover have "nat k < nat di + nat n \<longleftrightarrow> k < di + n" using assms(2) b by linarith
  moreover have "di \<le> k \<Longrightarrow> nat si + (nat k - nat di) = nat (si + (k - di))" using assms(2) b by linarith
  ultimately show ?thesis by auto
qed

lemma memcpyCells_frame:
  assumes "memcpyCells dst di src si n = Inr dst'" and "k < di \<or> di + n \<le> k"
  shows "cellAt dst' k = cellAt dst k"
proof (cases "0 \<le> k \<and> k < int (length dst)")
  case True
  with memcpyCells_nth[OF assms(1), of k] memcpyCells_length[OF assms(1)] assms(2)
  show ?thesis by (auto simp: cellAt_def)
next
  case False
  with memcpyCells_length[OF assms(1)] show ?thesis by (auto simp: cellAt_def)
qed

lemma memcpyCells_copy:
  assumes "memcpyCells dst di src si n = Inr dst'" and "0 \<le> j" and "j < n"
  shows "cellAt dst' (di + j) = cellAt src (si + j)" and "cellAt src (si + j) = Inr (src ! nat (si + j))"
proof -
  from assms have b: "0 < n" "0 \<le> di" "0 \<le> si" "di + n \<le> int (length dst)" "si + n \<le> int (length src)"
    by (auto simp: memcpyCells_def split: if_splits)
  have k: "0 \<le> di + j" "di + j < int (length dst)" using b assms by auto
  from memcpyCells_nth[OF assms(1) k] assms(2,3)
  have "dst' ! nat (di + j) = src ! nat (si + j)" by simp
  moreover have "0 \<le> si + j" "si + j < int (length src)" using b assms by auto
  ultimately show "cellAt dst' (di + j) = cellAt src (si + j)"
    and "cellAt src (si + j) = Inr (src ! nat (si + j))"
    using k memcpyCells_length[OF assms(1)] by (auto simp: cellAt_def)
qed

lemma row_disjoint:
  assumes "y \<noteq> y'" and "0 \<le> x" and "x < columns'" and "0 \<le> cols" and "cols \<le> columns'"
  shows "y' * columns' + x < y * columns' \<or> y * columns' + cols \<le> y' * columns' + (x::int)"
proof (cases "y' < y")
  case True
  then have "y' + 1 \<le> y" by simp
  then have "(y' + 1) * columns' \<le> y * columns'" using assms by (intro mult_right_mono) auto
  then show ?thesis using assms by (simp add: algebra_simps)
next
  case False
  with assms have "y + 1 \<le> y'" by simp
  then have "(y + 1) * columns' \<le> y' * columns'" using assms by (intro mult_right_mono) auto
  then show ?thesis using assms by (simp add: algebra_simps)
qed


lemma dirtyLoop_cong:
  "(\<forall>c. x \<le> c \<and> c < n \<longrightarrow> cl c = cl' c) \<Longrightarrow>
   dirtyLoop d y nl cl n x m = dirtyLoop d y nl cl' n x m"
proof (induction d y nl cl n x m rule: dirtyLoop.induct)
  case (1 d y nl cl n x m)
  note unf = dirtyLoop.simps[of d y nl cl n x m] dirtyLoop.simps[of d y nl cl' n x m]
  show ?case
  proof (cases "x < n")
    case False
    then show ?thesis by (simp add: unf)
  next
    case xn: True
    from "1.prems" xn have here: "cl x = cl' x" by simp
    from "1.prems" have rest: "\<forall>c. x + 1 \<le> c \<and> c < n \<longrightarrow> cl c = cl' c" by simp
    show ?thesis
    proof (cases "imSpan d y x")
      case True
      from "1.IH"(1)[OF xn True rest] xn True show ?thesis by (simp add: unf)
    next
      case False
      show ?thesis
      proof (cases "nl x")
        case (Inl e)
        with xn False show ?thesis by (simp add: unf)
      next
        case a: (Inr a)
        show ?thesis
        proof (cases "cl x")
          case (Inl e)
          with here have "cl' x = Inl e" by simp
          with xn False a Inl show ?thesis by (simp add: unf)
        next
          case b: (Inr b)
          with here have b': "cl' x = Inr b" by simp
          from "1.IH"(2)[OF xn False a b rest] xn False a b b' show ?thesis
            by (simp add: unf)
        qed
      qed
    qed
  qed
qed

lemma scanLoop_hb:
  "map_sum id snd (scanLoop nl dm n x hb runs) = map_sum id snd (scanLoop nl dm n x hb2 runs)"
proof (induction nl dm n x hb runs arbitrary: hb2 rule: scanLoop.induct)
  case (1 nl dm n x hb runs)
  note unf = scanLoop.simps[of nl dm n x hb runs] scanLoop.simps[of nl dm n x hb2 runs]
  show ?case
  proof (cases "x < n")
    case False
    then show ?thesis by (simp add: unf)
  next
    case xn: True
    show ?thesis
    proof (cases "nl x")
      case (Inl e)
      with xn show ?thesis by (simp add: unf)
    next
      case ch: (Inr ch)
      define hb1 where "hb1 = (hb \<or> (rendition ch AND RE_BLINK) \<noteq> 0)"
      define hb3 where "hb3 = (hb2 \<or> (rendition ch AND RE_BLINK) \<noteq> 0)"
      show ?thesis
      proof (cases "maskAt dm x")
        case False
        from "1.IH"(3)[OF xn ch hb1_def False, of hb3] xn ch False show ?thesis
          by (simp add: unf Let_def hb1_def hb3_def)
      next
        case dirty: True
        show ?thesis
        proof (cases "character ch = 0")
          case z: True
          from "1.IH"(1)[OF xn ch hb1_def dirty z, of hb3] xn ch dirty z show ?thesis
            by (simp add: unf Let_def hb1_def hb3_def)
        next
          case nz: False
          show ?thesis
          proof (cases "nl (x + 1)")
            case (Inl e)
            with xn ch dirty nz show ?thesis by (simp add: unf Let_def)
          next
            case nx: (Inr nx)
            show ?thesis
            proof (cases "runLoop nl dm x (n - x) (runHead ch nx) 1 [character ch]")
              case (Inl e)
              with xn ch dirty nz nx show ?thesis by (simp add: unf Let_def)
            next
              case (Inr r)
              obtain len dis where r: "r = (len, dis)" by (cases r)
              from Inr r have rl: "runLoop nl dm x (n - x) (runHead ch nx) 1 [character ch] = Inr (len, dis)"
                by simp
              from "1.IH"(2)[OF xn ch hb1_def dirty nz nx rl refl, of hb3]
                xn ch dirty nz nx rl show ?thesis
                by (simp add: unf Let_def hb1_def hb3_def)
            qed
          qed
        qed
      qed
    qed
  qed
qed

lemma scanRow_hb:
  assumes a: "scanRow d nl dm n hb = Inr (hb', runs)"
  shows "\<exists>h. scanRow d nl dm n False = Inr (h, runs)"
proof (cases "resizing d")
  case True
  with a have "runs = []" by (simp add: scanRow_def)
  with True have "scanRow d nl dm n False = Inr (False, runs)" by (simp add: scanRow_def)
  then show ?thesis ..
next
  case False
  with a have s: "scanLoop nl dm n 0 hb [] = Inr (hb', runs)" by (simp add: scanRow_def)
  have "map_sum id snd (scanLoop nl dm n 0 False []) = map_sum id snd (scanLoop nl dm n 0 hb [])"
    by (rule scanLoop_hb)
  also have "\<dots> = Inr runs" by (simp add: s)
  finally have m: "map_sum id snd (scanLoop nl dm n 0 False []) = Inr runs" .
  show ?thesis
  proof (cases "scanLoop nl dm n 0 False []")
    case (Inl e)
    with m show ?thesis by simp
  next
    case (Inr r)
    with m have "snd r = runs" by simp
    then have "r = (fst r, runs)" by (cases r) simp
    with Inr False have "scanRow d nl dm n False = Inr (fst r, runs)" by (simp add: scanRow_def)
    then show ?thesis ..
  qed
qed

lemma diffRow_Inr:
  assumes "diffRow d sw cols y img hb = Inr (runs, ul, img', hb')"
  shows "rowRuns d sw cols img y = Inr runs"
    and "ul = (runs \<noteq> [] \<or> doubleHeightAt d y)"
    and "memcpyCells img (y * columns d) (windowImage sw) (y * windowColumns sw) cols = Inr img'"
proof -
  from assms obtain dm where dm: "dirtyMaskRow d y (newLineOf sw y) (currentLineOf d img y) cols = Inr dm"
    by (cases "dirtyMaskRow d y (newLineOf sw y) (currentLineOf d img y) cols")
       (simp_all add: diffRow_def)
  from assms dm obtain h rs where sc: "scanRow d (newLineOf sw y) dm cols hb = Inr (h, rs)"
    by (cases "scanRow d (newLineOf sw y) dm cols hb") (auto simp: diffRow_def)
  from assms dm sc have m: "memcpyCells img (y * columns d) (windowImage sw) (y * windowColumns sw) cols = Inr img'"
    and e: "runs = rs" "ul = (rs \<noteq> [] \<or> doubleHeightAt d y)" "hb' = h"
    by (auto simp: diffRow_def Let_def split: sum.splits)
  from scanRow_hb[OF sc] obtain h0 where "scanRow d (newLineOf sw y) dm cols False = Inr (h0, rs)" ..
  with dm e show "rowRuns d sw cols img y = Inr runs" by (simp add: rowRuns_def)
  from e show "ul = (runs \<noteq> [] \<or> doubleHeightAt d y)" by simp
  from m show "memcpyCells img (y * columns d) (windowImage sw) (y * windowColumns sw) cols = Inr img'" .
qed

lemma rowRuns_cong:
  assumes "\<forall>x. 0 \<le> x \<and> x < cols \<longrightarrow> currentLineOf d img y x = currentLineOf d img2 y x"
  shows "rowRuns d sw cols img y = rowRuns d sw cols img2 y"
proof -
  have "dirtyMaskRow d y (newLineOf sw y) (currentLineOf d img y) cols
      = dirtyMaskRow d y (newLineOf sw y) (currentLineOf d img2 y) cols"
    unfolding dirtyMaskRow_def by (rule dirtyLoop_cong) (use assms in simp)
  then show ?thesis by (simp add: rowRuns_def)
qed


lemma rowLoop_facts:
  "rowLoop d sw cols n y img region hb = Inr (img', region', hb') \<Longrightarrow>
   0 \<le> y \<Longrightarrow> cols \<le> columns d \<Longrightarrow>
   region' = region @ map (dirtyRect d cols)
       (filter (\<lambda>y'. rowRuns d sw cols img y' \<noteq> Inr [] \<or> doubleHeightAt d y') [y..n - 1]) \<and>
   (\<forall>y'. y \<le> y' \<and> y' < n \<longrightarrow> (\<exists>runs. rowRuns d sw cols img y' = Inr runs)) \<and>
   length img' = length img \<and>
   (\<forall>y' x. y \<le> y' \<and> y' < n \<and> 0 \<le> x \<and> x < cols \<longrightarrow>
      currentLineOf d img' y' x = newLineOf sw y' x \<and> (\<exists>c. newLineOf sw y' x = Inr c)) \<and>
   (\<forall>k. (\<forall>y'. y \<le> y' \<and> y' < n \<longrightarrow> k < y' * columns d \<or> y' * columns d + cols \<le> k)
      \<longrightarrow> cellAt img' k = cellAt img k) \<and>
   (y < n \<longrightarrow> 0 \<le> cols)"
proof (induction d sw cols n y img region hb rule: rowLoop.induct)
  case (1 d sw cols n y img region hb)
  note unf = rowLoop.simps[of d sw cols n y img region hb]
  note y0 = \<open>0 \<le> y\<close> and cc = \<open>cols \<le> columns d\<close>
  show ?case
  proof (cases "y < n")
    case False
    with "1.prems"(1) have e: "img' = img" "region' = region" by (simp_all add: unf)
    from False have "[y..n - 1] = []" by simp
    with e False show ?thesis by auto
  next
    case yn: True
    from "1.prems"(1) yn obtain runs ul img1 hb1
      where dr: "diffRow d sw cols y img hb = Inr (runs, ul, img1, hb1)"
      by (cases "diffRow d sw cols y img hb") (auto simp: unf)
    define region1 where "region1 = (if ul then region @ [dirtyRect d cols y] else region)"
    from "1.prems"(1) yn dr
    have r: "rowLoop d sw cols n (y + 1) img1 region1 hb1 = Inr (img', region', hb')"
      by (simp add: unf region1_def)
    note fr = diffRow_Inr[OF dr]
    have c0: "0 \<le> cols" using fr(3) by (auto simp: memcpyCells_def split: if_splits)
    have y1: "0 \<le> y + 1" using y0 by simp
    from "1.IH"[OF yn dr refl refl refl r[unfolded region1_def] y1 cc]
    have ih1: "region' = region1 @ map (dirtyRect d cols)
         (filter (\<lambda>y'. rowRuns d sw cols img1 y' \<noteq> Inr [] \<or> doubleHeightAt d y') [y + 1..n - 1])"
      and ih2: "\<And>y'. y + 1 \<le> y' \<Longrightarrow> y' < n \<Longrightarrow> \<exists>runs. rowRuns d sw cols img1 y' = Inr runs"
      and ih3: "length img' = length img1"
      and ih4: "\<And>y' x. y + 1 \<le> y' \<Longrightarrow> y' < n \<Longrightarrow> 0 \<le> x \<Longrightarrow> x < cols \<Longrightarrow>
          currentLineOf d img' y' x = newLineOf sw y' x \<and> (\<exists>c. newLineOf sw y' x = Inr c)"
      and ih5: "\<And>k. (\<forall>y'. y + 1 \<le> y' \<and> y' < n \<longrightarrow> k < y' * columns d \<or> y' * columns d + cols \<le> k)
          \<Longrightarrow> cellAt img' k = cellAt img1 k"
      unfolding region1_def by blast+
    have later: "rowRuns d sw cols img1 y' = rowRuns d sw cols img y'" if "y + 1 \<le> y'" for y'
    proof (rule rowRuns_cong, intro allI impI)
      fix x assume x: "0 \<le> x \<and> x < cols"
      from that have ne: "y \<noteq> y'" by simp
      from x cc have xc: "x < columns d" by simp
      from row_disjoint[OF ne _ xc c0 cc, of ] x
      have "y' * columns d + x < y * columns d \<or> y * columns d + cols \<le> y' * columns d + x" by simp
      from memcpyCells_frame[OF fr(3) this]
      show "currentLineOf d img1 y' x = currentLineOf d img y' x"
        by (simp add: currentLineOf_def)
    qed
    have up: "[y..n - 1] = y # [y + 1..n - 1]" using yn by (simp add: upto_rec1)
    have flt: "filter (\<lambda>y'. rowRuns d sw cols img1 y' \<noteq> Inr [] \<or> doubleHeightAt d y') [y + 1..n - 1]
        = filter (\<lambda>y'. rowRuns d sw cols img y' \<noteq> Inr [] \<or> doubleHeightAt d y') [y + 1..n - 1]"
      by (rule filter_cong) (simp_all add: later)
    have g1: "region' = region @ map (dirtyRect d cols)
       (filter (\<lambda>y'. rowRuns d sw cols img y' \<noteq> Inr [] \<or> doubleHeightAt d y') [y..n - 1])"
      unfolding ih1 flt up region1_def using fr(1,2) by simp
    have g2: "\<exists>runs. rowRuns d sw cols img y' = Inr runs" if "y \<le> y'" "y' < n" for y'
    proof (cases "y' = y")
      case True
      with fr(1) show ?thesis by auto
    next
      case False
      with that have "y + 1 \<le> y'" by simp
      from ih2[OF this that(2)] later[OF this] show ?thesis by simp
    qed
    have g3: "length img' = length img"
      using ih3 memcpyCells_length[OF fr(3)] by simp
    have g4: "currentLineOf d img' y' x = newLineOf sw y' x \<and> (\<exists>c. newLineOf sw y' x = Inr c)"
      if "y \<le> y'" "y' < n" "0 \<le> x" "x < cols" for y' x
    proof (cases "y' = y")
      case False
      with that have "y + 1 \<le> y'" by simp
      from ih4[OF this that(2,3,4)] show ?thesis .
    next
      case True
      from that cc have xc: "x < columns d" by simp
      have "\<forall>y''. y + 1 \<le> y'' \<and> y'' < n \<longrightarrow>
          y * columns d + x < y'' * columns d \<or> y'' * columns d + cols \<le> y * columns d + x"
      proof (intro allI impI)
        fix y'' assume "y + 1 \<le> y'' \<and> y'' < n"
        then have "y'' \<noteq> y" by simp
        from row_disjoint[OF this that(3) xc c0 cc]
        show "y * columns d + x < y'' * columns d \<or> y'' * columns d + cols \<le> y * columns d + x" .
      qed
      from ih5[OF this] have "cellAt img' (y * columns d + x) = cellAt img1 (y * columns d + x)" .
      also have "\<dots> = cellAt (windowImage sw) (y * windowColumns sw + x)"
        by (rule memcpyCells_copy(1)[OF fr(3) that(3,4)])
      finally have "currentLineOf d img' y x = newLineOf sw y x"
        by (simp add: currentLineOf_def newLineOf_def)
      moreover have "\<exists>c. newLineOf sw y x = Inr c"
        using memcpyCells_copy(2)[OF fr(3) that(3,4)] by (simp add: newLineOf_def)
      ultimately show ?thesis using True by simp
    qed
    have g5: "cellAt img' k = cellAt img k"
      if "\<forall>y'. y \<le> y' \<and> y' < n \<longrightarrow> k < y' * columns d \<or> y' * columns d + cols \<le> k" for k
    proof -
      from that have "\<forall>y'. y + 1 \<le> y' \<and> y' < n \<longrightarrow> k < y' * columns d \<or> y' * columns d + cols \<le> k"
        by simp
      from ih5[OF this] have "cellAt img' k = cellAt img1 k" .
      also from that yn have "k < y * columns d \<or> y * columns d + cols \<le> k" by simp
      from memcpyCells_frame[OF fr(3) this] have "cellAt img1 k = cellAt img k" .
      finally show ?thesis .
    qed
    from g1 g2 g3 g4 g5 c0 show ?thesis by blast
  qed
qed


section \<open>Properties of \<^verbatim>\<open>updateImage\<close>\<close>

lemma newLineOf_scrollCount [simp]: "newLineOf (sw\<lparr> scrollCount := k \<rparr>) = newLineOf sw"
  by (rule ext, rule ext) (simp add: newLineOf_def)

lemma rowRuns_scrollCount [simp]: "rowRuns d (sw\<lparr> scrollCount := k \<rparr>) = rowRuns d sw"
  by (rule ext, rule ext, rule ext) (simp add: rowRuns_def cong: sum.case_cong)

lemma extent_scrollCount [simp]:
  "linesToUpdateOf d (sw\<lparr> scrollCount := k \<rparr>) = linesToUpdateOf d sw"
  "columnsToUpdateOf d (sw\<lparr> scrollCount := k \<rparr>) = columnsToUpdateOf d sw"
  by (simp_all add: linesToUpdateOf_def columnsToUpdateOf_def)

lemma updateImage_Inr:
  assumes "updateImage d sw junk = Inr (d', sw', region)"
  obtains (compared) d2 img img' rows hb where
    "prepareImage d sw junk = Inr d2" and "usedLines d2 \<le> lines d2" and "usedColumns d2 \<le> columns d2"
    and "image d2 = Some img"
    and "rowLoop d2 (sw\<lparr> scrollCount := 0 \<rparr>) (columnsToUpdateOf d2 sw) (linesToUpdateOf d2 sw) 0 img [] False
          = Inr (img', rows, hb)"
    and "region = rows @ (if linesToUpdateOf d2 sw < usedLines d2
                          then [clearLinesRect d2 (linesToUpdateOf d2 sw)] else [])
                        @ (if columnsToUpdateOf d2 sw < usedColumns d2
                           then [clearColumnsRect d2 (columnsToUpdateOf d2 sw)] else [])"
    and "d' = d2\<lparr> image := Some img', hasBlinker := hb, usedLines := linesToUpdateOf d2 sw,
                   usedColumns := columnsToUpdateOf d2 sw \<rparr>"
    and "sw' = sw\<lparr> scrollCount := 0 \<rparr>"
proof -
  from assms obtain d2 where p: "prepareImage d sw junk = Inr d2"
    by (cases "prepareImage d sw junk") (simp_all add: updateImage_def)
  have a1: "usedLines d2 \<le> lines d2"
  proof (rule ccontr)
    assume "\<not> usedLines d2 \<le> lines d2"
    with assms p show False by (simp add: updateImage_def Let_def)
  qed
  have a2: "usedColumns d2 \<le> columns d2"
  proof (rule ccontr)
    assume "\<not> usedColumns d2 \<le> columns d2"
    with assms p a1 show False by (simp add: updateImage_def Let_def)
  qed
  from assms p a1 a2 obtain img where i: "image d2 = Some img"
    by (cases "image d2") (simp_all add: updateImage_def Let_def)
  let ?r = "rowLoop d2 (sw\<lparr> scrollCount := 0 \<rparr>) (columnsToUpdateOf d2 sw) (linesToUpdateOf d2 sw) 0 img [] False"
  from assms p a1 a2 i obtain res where r0: "?r = Inr res"
    by (cases ?r) (simp_all add: updateImage_def Let_def)
  obtain img' rows hb where res: "res = (img', rows, hb)" by (cases res)
  have cc: "clearColumnsRect (d2\<lparr> image := Some img', hasBlinker := hb, usedLines := linesToUpdateOf d2 sw \<rparr>)
      (columnsToUpdateOf d2 sw) = clearColumnsRect d2 (columnsToUpdateOf d2 sw)"
    by (simp add: clearColumnsRect_def)
  have all: "d' = d2\<lparr> image := Some img', hasBlinker := hb, usedLines := linesToUpdateOf d2 sw,
                   usedColumns := columnsToUpdateOf d2 sw \<rparr> \<and> sw' = sw\<lparr> scrollCount := 0 \<rparr> \<and>
      region = rows @ (if linesToUpdateOf d2 sw < usedLines d2
                          then [clearLinesRect d2 (linesToUpdateOf d2 sw)] else [])
                        @ (if columnsToUpdateOf d2 sw < usedColumns d2
                           then [clearColumnsRect d2 (columnsToUpdateOf d2 sw)] else [])"
  proof (cases "linesToUpdateOf d2 sw < usedLines d2")
    case A: True
    show ?thesis
    proof (cases "columnsToUpdateOf d2 sw < usedColumns d2")
      case B: True
      from assms show ?thesis
        unfolding updateImage_def by (auto simp add: p a1 a2 i r0 res Let_def cc A B)
    next
      case B: False
      from assms show ?thesis
        unfolding updateImage_def by (auto simp add: p a1 a2 i r0 res Let_def cc A B)
    qed
  next
    case A: False
    show ?thesis
    proof (cases "columnsToUpdateOf d2 sw < usedColumns d2")
      case B: True
      from assms show ?thesis
        unfolding updateImage_def by (auto simp add: p a1 a2 i r0 res Let_def cc A B)
    next
      case B: False
      from assms show ?thesis
        unfolding updateImage_def by (auto simp add: p a1 a2 i r0 res Let_def cc A B)
    qed
  qed
  then have e: "d' = d2\<lparr> image := Some img', hasBlinker := hb, usedLines := linesToUpdateOf d2 sw,
                   usedColumns := columnsToUpdateOf d2 sw \<rparr>" "sw' = sw\<lparr> scrollCount := 0 \<rparr>"
    and reg': "region = rows @ (if linesToUpdateOf d2 sw < usedLines d2
                          then [clearLinesRect d2 (linesToUpdateOf d2 sw)] else [])
                        @ (if columnsToUpdateOf d2 sw < usedColumns d2
                           then [clearColumnsRect d2 (columnsToUpdateOf d2 sw)] else [])"
    by simp_all
  from r0 res have r: "?r = Inr (img', rows, hb)" by simp
  from that[OF p a1 a2 i r reg' e] show thesis .
qed

lemma updateImage_rows:
  assumes p: "prepareImage d sw junk = Inr d2" and i: "image d2 = Some img"
    and u: "updateImage d sw junk = Inr (d', sw', region)"
  obtains (rows) img' rows hb where
    "rowLoop d2 (sw\<lparr> scrollCount := 0 \<rparr>) (columnsToUpdateOf d2 sw) (linesToUpdateOf d2 sw) 0 img [] False
          = Inr (img', rows, hb)"
    and "region = rows @ (if linesToUpdateOf d2 sw < usedLines d2
                          then [clearLinesRect d2 (linesToUpdateOf d2 sw)] else [])
                        @ (if columnsToUpdateOf d2 sw < usedColumns d2
                           then [clearColumnsRect d2 (columnsToUpdateOf d2 sw)] else [])"
    and "d' = d2\<lparr> image := Some img', hasBlinker := hb, usedLines := linesToUpdateOf d2 sw,
                   usedColumns := columnsToUpdateOf d2 sw \<rparr>"
    and "usedLines d2 \<le> lines d2" and "usedColumns d2 \<le> columns d2"
    and "columnsToUpdateOf d2 sw \<le> columns d2"
  using u
proof (cases rule: updateImage_Inr)
  case (compared e2 img0 img' rws hb)
  note f = compared
  from f(1) p have e: "e2 = d2" by simp
  with f(4) i have e': "img0 = img" by simp
  have b: "columnsToUpdateOf d2 sw \<le> columns d2"
    by (simp add: columnsToUpdateOf_def)
  show thesis
    by (rule rows[OF f(5)[unfolded e e'] f(6)[unfolded e] f(7)[unfolded e]
          f(2)[unfolded e] f(3)[unfolded e] b])
qed


text \<open>
  C4 (as amended). Let \<open>d2\<close> be the display when the comparison starts (after the
  scroll of the retained image, and after its creation when there was none) and \<open>img\<close>
  its image. The region that \<^verbatim>\<open>updateImage\<close> passes on consists of one rectangle for each
  row of the compared extent, from the first to the last, in which a run was found or
  whose double-height flag is set: the rectangle lies at the vertical band of that row
  and spans the whole compared width, whichever of its columns changed. After them come
  the clear-rectangle for the lines and the clear-rectangle for the columns by which the
  used extent shrinks, when it shrinks. Without shrinkage the region is the list of the
  per-row rectangles alone.
\<close>

theorem dirty_region_structure:
  assumes p: "prepareImage d sw junk = Inr d2" and i: "image d2 = Some img"
    and u: "updateImage d sw junk = Inr (d', sw', region)"
  shows "region =
           map (dirtyRect d2 (columnsToUpdateOf d2 sw))
             (filter (\<lambda>y. rowRuns d2 sw (columnsToUpdateOf d2 sw) img y \<noteq> Inr [] \<or> doubleHeightAt d2 y)
                [0..linesToUpdateOf d2 sw - 1])
           @ (if linesToUpdateOf d2 sw < usedLines d2
              then [clearLinesRect d2 (linesToUpdateOf d2 sw)] else [])
           @ (if columnsToUpdateOf d2 sw < usedColumns d2
              then [clearColumnsRect d2 (columnsToUpdateOf d2 sw)] else []) \<and>
         (usedLines d2 \<le> linesToUpdateOf d2 sw \<and> usedColumns d2 \<le> columnsToUpdateOf d2 sw \<longrightarrow>
            region =
              map (dirtyRect d2 (columnsToUpdateOf d2 sw))
                (filter (\<lambda>y. rowRuns d2 sw (columnsToUpdateOf d2 sw) img y \<noteq> Inr [] \<or> doubleHeightAt d2 y)
                   [0..linesToUpdateOf d2 sw - 1]))"
  using p i u
proof (cases rule: updateImage_rows)
  case (rows img' rws hb)
  from rowLoop_facts[OF rows(1) _ rows(6)] have
    "rws = map (dirtyRect d2 (columnsToUpdateOf d2 sw))
             (filter (\<lambda>y. rowRuns d2 sw (columnsToUpdateOf d2 sw) img y \<noteq> Inr [] \<or> doubleHeightAt d2 y)
                [0..linesToUpdateOf d2 sw - 1])"
    by simp
  with rows(2) show ?thesis by simp
qed

text \<open>
  A display of three lines in which the window changes one cell of line 1 and leaves
  line 2 vacant, and a display of two lines whose window has its dimensions and changes
  one cell of line 1.
\<close>

theorem dirty_region_structure_witness:
  "prepareImage (gridDisplay 3 3 (replicate 10 blankCell) [])
     \<lparr> scrollCount = 0, windowImage = [blankCell, blankCell, blankCell, blankCell, glyph 0x41, blankCell, blankCell],
       windowLines = 2, windowColumns = 3 \<rparr> blankJunk
   = Inr (gridDisplay 3 3 (replicate 10 blankCell) []) \<and>
   updateImage (gridDisplay 3 3 (replicate 10 blankCell) [])
     \<lparr> scrollCount = 0, windowImage = [blankCell, blankCell, blankCell, blankCell, glyph 0x41, blankCell, blankCell],
       windowLines = 2, windowColumns = 3 \<rparr> blankJunk
   = Inr ((gridDisplay 3 3 ([blankCell, blankCell, blankCell, blankCell, glyph 0x41, blankCell] @ replicate 4 blankCell) [])
             \<lparr> usedLines := 2 \<rparr>,
          \<lparr> scrollCount = 0, windowImage = [blankCell, blankCell, blankCell, blankCell, glyph 0x41, blankCell, blankCell],
            windowLines = 2, windowColumns = 3 \<rparr>,
          [mkRect 1 2 3 1, mkRect 1 3 3 1]) \<and>
   [mkRect 1 2 3 1, mkRect 1 3 3 1] =
     map (dirtyRect (gridDisplay 3 3 (replicate 10 blankCell) []) 3) [1]
     @ [clearLinesRect (gridDisplay 3 3 (replicate 10 blankCell) []) 2] @ [] \<and>
   updateImage (gridDisplay 2 2 (replicate 5 blankCell) [])
     \<lparr> scrollCount = 0, windowImage = [blankCell, blankCell, glyph 0x41, blankCell, blankCell],
       windowLines = 2, windowColumns = 2 \<rparr> blankJunk
   = Inr (gridDisplay 2 2 [blankCell, blankCell, glyph 0x41, blankCell, blankCell] [],
          \<lparr> scrollCount = 0, windowImage = [blankCell, blankCell, glyph 0x41, blankCell, blankCell],
            windowLines = 2, windowColumns = 2 \<rparr>,
          [mkRect 1 2 2 1]) \<and>
   [mkRect 1 2 2 1] = map (dirtyRect (gridDisplay 2 2 (replicate 5 blankCell) []) 2) [1]"
proof -
  let ?d = "gridDisplay 3 3 (replicate 10 blankCell) []"
  let ?sw = "\<lparr> scrollCount = 0, windowImage = [blankCell, blankCell, blankCell, blankCell, glyph 0x41, blankCell, blankCell],
       windowLines = 2, windowColumns = 3 \<rparr>"
  let ?d' = "(gridDisplay 3 3 ([blankCell, blankCell, blankCell, blankCell, glyph 0x41, blankCell] @ replicate 4 blankCell) [])
             \<lparr> usedLines := 2 \<rparr>"
  have p: "prepareImage ?d ?sw blankJunk = Inr ?d" by code_simp
  have i: "image ?d = Some (replicate 10 blankCell)" by code_simp
  have u: "updateImage ?d ?sw blankJunk = Inr (?d', ?sw, [mkRect 1 2 3 1, mkRect 1 3 3 1])"
    by code_simp
  have e: "linesToUpdateOf ?d ?sw = 2" "columnsToUpdateOf ?d ?sw = 3" "usedLines ?d = 3" "usedColumns ?d = 3"
    by code_simp+
  have f: "rowRuns ?d ?sw 3 (replicate 10 blankCell) 0 = Inr []"
    "rowRuns ?d ?sw 3 (replicate 10 blankCell) 1 = Inr [(0, 3, [0x20, 0x41, 0x20])]"
    "\<not> doubleHeightAt ?d 0" "\<not> doubleHeightAt ?d 1" by code_simp+
  have l: "[0..(2::int) - 1] = [0, 1]" by code_simp
  from dirty_region_structure[OF p i u, THEN conjunct1]
  have a: "[mkRect 1 2 3 1, mkRect 1 3 3 1] = map (dirtyRect ?d 3) [1] @ [clearLinesRect ?d 2] @ []"
    unfolding e l by (simp add: f)
  let ?g = "gridDisplay 2 2 (replicate 5 blankCell) []"
  let ?sv = "\<lparr> scrollCount = 0, windowImage = [blankCell, blankCell, glyph 0x41, blankCell, blankCell],
       windowLines = 2, windowColumns = 2 \<rparr>"
  let ?g' = "gridDisplay 2 2 [blankCell, blankCell, glyph 0x41, blankCell, blankCell] []"
  have p2: "prepareImage ?g ?sv blankJunk = Inr ?g" by code_simp
  have i2: "image ?g = Some (replicate 5 blankCell)" by code_simp
  have u2: "updateImage ?g ?sv blankJunk = Inr (?g', ?sv, [mkRect 1 2 2 1])" by code_simp
  have e2: "linesToUpdateOf ?g ?sv = 2" "columnsToUpdateOf ?g ?sv = 2" "usedLines ?g = 2" "usedColumns ?g = 2"
    by code_simp+
  have f2: "rowRuns ?g ?sv 2 (replicate 5 blankCell) 0 = Inr []"
    "rowRuns ?g ?sv 2 (replicate 5 blankCell) 1 = Inr [(0, 2, [0x41, 0x20])]"
    "\<not> doubleHeightAt ?g 0" "\<not> doubleHeightAt ?g 1" by code_simp+
  have full: "usedLines ?g \<le> linesToUpdateOf ?g ?sv \<and> usedColumns ?g \<le> columnsToUpdateOf ?g ?sv"
    unfolding e2 by simp
  from dirty_region_structure[OF p2 i2 u2, THEN conjunct2, THEN mp, OF full]
  have b: "[mkRect 1 2 2 1] = map (dirtyRect ?g 2) [1]"
    unfolding e2 l by (simp add: f2)
  from p u a u2 b show ?thesis by simp
qed

text \<open>
  A display of two lines and five columns in full use and a window of one line in which
  only the cell of column 0 differs: the mask of row 0 marks the columns \<open>-1\<close>, 0 and 1
  and the one run of the row covers the columns 0 and 1, but the rectangle of the row is
  five columns wide; and the region holds a second rectangle, the clear-rectangle of the
  vacated line 1, which is the rectangle of no compared row.
\<close>

theorem region_wider_than_runs_and_clear_rectangle:
  "linesToUpdateOf (gridDisplay 2 5 (replicate 11 blankCell) [])
     \<lparr> scrollCount = 0, windowImage = glyph 0x41 # replicate 5 blankCell, windowLines = 1, windowColumns = 5 \<rparr> = 1 \<and>
   dirtyMaskRow (gridDisplay 2 5 (replicate 11 blankCell) []) 0
     (newLineOf \<lparr> scrollCount = 0, windowImage = glyph 0x41 # replicate 5 blankCell, windowLines = 1, windowColumns = 5 \<rparr> 0)
     (currentLineOf (gridDisplay 2 5 (replicate 11 blankCell) []) (replicate 11 blankCell) 0) 5
   = Inr [True, True, True, False, False, False, False] \<and>
   rowRuns (gridDisplay 2 5 (replicate 11 blankCell) [])
     \<lparr> scrollCount = 0, windowImage = glyph 0x41 # replicate 5 blankCell, windowLines = 1, windowColumns = 5 \<rparr>
     5 (replicate 11 blankCell) 0 = Inr [(0, 2, [0x41, 0x20])] \<and>
   updateImage (gridDisplay 2 5 (replicate 11 blankCell) [])
     \<lparr> scrollCount = 0, windowImage = glyph 0x41 # replicate 5 blankCell, windowLines = 1, windowColumns = 5 \<rparr>
     blankJunk
   = Inr ((gridDisplay 2 5 (glyph 0x41 # replicate 10 blankCell) [])\<lparr> usedLines := 1 \<rparr>,
          \<lparr> scrollCount = 0, windowImage = glyph 0x41 # replicate 5 blankCell, windowLines = 1, windowColumns = 5 \<rparr>,
          [mkRect 1 1 5 1, mkRect 1 2 5 1]) \<and>
   rw (mkRect 1 1 5 1) = 5 * font_w (gridDisplay 2 5 (replicate 11 blankCell) []) \<and>
   \<not> regionIsEmpty [mkRect 1 2 5 1]"
  by code_simp

text \<open>
  The flag of a row in \<^verbatim>\<open>updateImage\<close>. Every row \<open>y\<close> of the compared extent is
  scanned for runs, whatever the flags of the row above it are. If a run was found in
  row \<open>y\<close> or its double-height flag is set, the rectangle of the row is part of the
  region; if no run was found and the flag is not set, it is not (for fonts of positive
  width and height, where the rectangles tell the rows apart). The cells of row \<open>y\<close>
  inside the compared width are copied to the retained image.
\<close>

theorem row_flagged:
  assumes p: "prepareImage d sw junk = Inr d2" and i: "image d2 = Some img"
    and u: "updateImage d sw junk = Inr (d', sw', region)"
    and y: "0 \<le> y" "y < linesToUpdateOf d2 sw"
  shows "\<exists>runs img'.
           rowRuns d2 sw (columnsToUpdateOf d2 sw) img y = Inr runs \<and>
           (runs \<noteq> [] \<or> doubleHeightAt d2 y \<longrightarrow>
              dirtyRect d2 (columnsToUpdateOf d2 sw) y \<in> set region) \<and>
           (runs = [] \<and> \<not> doubleHeightAt d2 y \<and> 0 < font_h d2 \<and> 0 < font_w d2 \<longrightarrow>
              dirtyRect d2 (columnsToUpdateOf d2 sw) y \<notin> set region) \<and>
           image d' = Some img' \<and>
           (\<forall>x. 0 \<le> x \<and> x < columnsToUpdateOf d2 sw \<longrightarrow>
              currentLineOf d2 img' y x = newLineOf sw y x)"
  using p i u
proof (cases rule: updateImage_rows)
  case (rows img' rws hb)
  let ?cols = "columnsToUpdateOf d2 sw" and ?n = "linesToUpdateOf d2 sw"
  let ?fl = "\<lambda>y. rowRuns d2 sw ?cols img y \<noteq> Inr [] \<or> doubleHeightAt d2 y"
  note reg = rows(2) and d' = rows(3)
  from rowLoop_facts[OF rows(1) _ rows(6)]
  have rws: "rws = map (dirtyRect d2 ?cols) (filter ?fl [0..?n - 1])"
    and ex: "\<And>y'. 0 \<le> y' \<Longrightarrow> y' < ?n \<Longrightarrow> \<exists>runs. rowRuns d2 sw ?cols img y' = Inr runs"
    and cp: "\<And>y' x. 0 \<le> y' \<Longrightarrow> y' < ?n \<Longrightarrow> 0 \<le> x \<Longrightarrow> x < ?cols \<Longrightarrow>
        currentLineOf d2 img' y' x = newLineOf sw y' x"
    by simp_all
  from ex[OF y] obtain runs where runs: "rowRuns d2 sw ?cols img y = Inr runs" ..
  have mem: "y \<in> set [0..?n - 1]" using y by simp
  have g1: "dirtyRect d2 ?cols y \<in> set region" if "runs \<noteq> [] \<or> doubleHeightAt d2 y"
  proof -
    from that runs have "?fl y" by simp
    with mem have "y \<in> set (filter ?fl [0..?n - 1])" by simp
    then have "dirtyRect d2 ?cols y \<in> set rws" unfolding rws by simp
    then show ?thesis unfolding reg by simp
  qed
  have g2: "dirtyRect d2 ?cols y \<notin> set region"
    if nf: "runs = []" "\<not> doubleHeightAt d2 y" and f: "0 < font_h d2" "0 < font_w d2"
  proof
    assume "dirtyRect d2 ?cols y \<in> set region"
    then consider (row) "dirtyRect d2 ?cols y \<in> set rws"
      | (cl) "?n < usedLines d2" "dirtyRect d2 ?cols y = clearLinesRect d2 ?n"
      | (cc) "?cols < usedColumns d2" "dirtyRect d2 ?cols y = clearColumnsRect d2 ?cols"
      unfolding reg by (auto split: if_splits)
    then show False
    proof cases
      case row
      then obtain y' where y': "?fl y'" and e: "dirtyRect d2 ?cols y = dirtyRect d2 ?cols y'"
        unfolding rws by auto
      from e f have "y = y'" by (simp add: dirtyRect_def mkRect_def)
      with y' nf runs show False by simp
    next
      case cl
      from cl(2) f have "y = ?n" by (simp add: dirtyRect_def clearLinesRect_def mkRect_def)
      with y show False by simp
    next
      case cc
      from cc(2) have w: "font_w d2 * ?cols = font_w d2 * (usedColumns d2 - ?cols)"
        and x: "?cols * font_w d2 = 0"
        by (simp_all add: dirtyRect_def clearColumnsRect_def mkRect_def)
      from x f have "?cols = 0" by simp
      with w f cc(1) show False by simp
    qed
  qed
  have g3: "image d' = Some img'" by (simp add: d')
  from cp[OF y] have g4: "\<forall>x. 0 \<le> x \<and> x < ?cols \<longrightarrow> currentLineOf d2 img' y x = newLineOf sw y x"
    by simp
  show ?thesis
    by (intro exI[of _ runs] exI[of _ img'] conjI impI runs g3 g4) (use g1 g2 in simp_all)
qed

theorem row_flagged_witness:
  "prepareImage (gridDisplay 2 2 [blankCell, blankCell, blankCell, blankCell, blankCell] [LINE_DOUBLEHEIGHT])
     \<lparr> scrollCount = 0, windowImage = [blankCell, blankCell, glyph 0x41, blankCell, blankCell],
       windowLines = 2, windowColumns = 2 \<rparr> blankJunk
   = Inr (gridDisplay 2 2 [blankCell, blankCell, blankCell, blankCell, blankCell] [LINE_DOUBLEHEIGHT]) \<and>
   updateImage (gridDisplay 2 2 [blankCell, blankCell, blankCell, blankCell, blankCell] [LINE_DOUBLEHEIGHT])
     \<lparr> scrollCount = 0, windowImage = [blankCell, blankCell, glyph 0x41, blankCell, blankCell],
       windowLines = 2, windowColumns = 2 \<rparr> blankJunk
   = Inr (gridDisplay 2 2 [blankCell, blankCell, glyph 0x41, blankCell, blankCell] [LINE_DOUBLEHEIGHT],
          \<lparr> scrollCount = 0, windowImage = [blankCell, blankCell, glyph 0x41, blankCell, blankCell],
            windowLines = 2, windowColumns = 2 \<rparr>,
          [mkRect 1 1 2 1, mkRect 1 2 2 1]) \<and>
   rowRuns (gridDisplay 2 2 [blankCell, blankCell, blankCell, blankCell, blankCell] [LINE_DOUBLEHEIGHT])
     \<lparr> scrollCount = 0, windowImage = [blankCell, blankCell, glyph 0x41, blankCell, blankCell],
       windowLines = 2, windowColumns = 2 \<rparr> 2 [blankCell, blankCell, blankCell, blankCell, blankCell] 1
   = Inr [(0, 2, [0x41, 0x20])] \<and>
   dirtyRect (gridDisplay 2 2 [blankCell, blankCell, blankCell, blankCell, blankCell] [LINE_DOUBLEHEIGHT]) 2 1
     \<in> set [mkRect 1 1 2 1, mkRect 1 2 2 1]"
proof -
  let ?d = "gridDisplay 2 2 [blankCell, blankCell, blankCell, blankCell, blankCell] [LINE_DOUBLEHEIGHT]"
  let ?sw = "\<lparr> scrollCount = 0, windowImage = [blankCell, blankCell, glyph 0x41, blankCell, blankCell],
       windowLines = 2, windowColumns = 2 \<rparr>"
  have p: "prepareImage ?d ?sw blankJunk = Inr ?d" by code_simp
  have i: "image ?d = Some [blankCell, blankCell, blankCell, blankCell, blankCell]" by code_simp
  have u: "updateImage ?d ?sw blankJunk
   = Inr (gridDisplay 2 2 [blankCell, blankCell, glyph 0x41, blankCell, blankCell] [LINE_DOUBLEHEIGHT],
          ?sw, [mkRect 1 1 2 1, mkRect 1 2 2 1])" by code_simp
  have y: "(0::int) \<le> 1" "1 < linesToUpdateOf ?d ?sw" by code_simp+
  have r: "rowRuns ?d ?sw 2 [blankCell, blankCell, blankCell, blankCell, blankCell] 1
   = Inr [(0, 2, [0x41, 0x20])]" by code_simp
  have c: "columnsToUpdateOf ?d ?sw = 2" by code_simp
  from row_flagged[OF p i u y] r c
  have "dirtyRect ?d 2 1 \<in> set [mkRect 1 1 2 1, mkRect 1 2 2 1]" by auto
  with p u r show ?thesis by simp
qed

theorem double_height_next_row_compared:
  "doubleHeightAt (gridDisplay 2 2 [blankCell, blankCell, blankCell, blankCell, blankCell] [LINE_DOUBLEHEIGHT]) 0 \<and>
   \<not> doubleHeightAt (gridDisplay 2 2 [blankCell, blankCell, blankCell, blankCell, blankCell] [LINE_DOUBLEHEIGHT]) 1 \<and>
   updateImage (gridDisplay 2 2 [blankCell, blankCell, blankCell, blankCell, blankCell] [LINE_DOUBLEHEIGHT])
     \<lparr> scrollCount = 0, windowImage = [blankCell, blankCell, glyph 0x41, blankCell, blankCell],
       windowLines = 2, windowColumns = 2 \<rparr> blankJunk
   = Inr (gridDisplay 2 2 [blankCell, blankCell, glyph 0x41, blankCell, blankCell] [LINE_DOUBLEHEIGHT],
          \<lparr> scrollCount = 0, windowImage = [blankCell, blankCell, glyph 0x41, blankCell, blankCell],
            windowLines = 2, windowColumns = 2 \<rparr>,
          [mkRect 1 1 2 1, mkRect 1 2 2 1]) \<and>
   dirtyRect (gridDisplay 2 2 [blankCell, blankCell, blankCell, blankCell, blankCell] [LINE_DOUBLEHEIGHT]) 2 1
   = mkRect 1 2 2 1"
  by code_simp

section \<open>The rows that \<^verbatim>\<open>paintContents\<close> visits\<close>

text \<open>
  C3. \<^verbatim>\<open>updateImage\<close> flags a row if a run was found in it or its double-height flag is
  set, and visits every row (\<open>row_flagged\<close>); the row after a double-height row is
  skipped by \<^verbatim>\<open>paintContents\<close>, whose comment says that the next line can be skipped.
  It is skipped once for each fragment painted. On a grid of three lines and two columns
  whose lines 0 and 1 are a double-height pair with the same text, painted as a whole:
  when the two cells of the pair differ in rendition, the first fragment is painted from
  line 0 and the second from line 1, the loop over the rows starts a pass at line 0
  only, and line 2, which has no double-height flag, is not painted at all; when the
  cells have one rendition, line 0 is one fragment, line 1 is skipped and line 2 is
  painted. On a double-height pair of three columns with three fragments the third
  fragment is read from a line behind the last one, outside the image.
\<close>

theorem paint_skips_a_row_for_each_fragment:
  "paintContents
     (gridDisplay 3 2 [glyph 0x41, bold 0x42, glyph 0x41, bold 0x42, glyph 0x43, glyph 0x44, blankCell]
        [LINE_DOUBLEHEIGHT, LINE_DOUBLEHEIGHT, 0])
     (mkRect 0 0 4 4)
   = Inr ([0], [(0, 0, 1, [0x41]), (1, 1, 1, [0x42])]) \<and>
   paintContents
     (gridDisplay 3 2 [glyph 0x41, glyph 0x42, glyph 0x41, glyph 0x42, glyph 0x43, glyph 0x44, blankCell]
        [LINE_DOUBLEHEIGHT, LINE_DOUBLEHEIGHT, 0])
     (mkRect 0 0 4 4)
   = Inr ([0, 2], [(0, 0, 2, [0x41, 0x42]), (2, 0, 2, [0x43, 0x44])]) \<and>
   paintContents
     (gridDisplay 2 3 [glyph 0x41, bold 0x42, glyph 0x43, glyph 0x41, bold 0x42, glyph 0x43, blankCell]
        [LINE_DOUBLEHEIGHT, LINE_DOUBLEHEIGHT])
     (mkRect 0 0 5 3)
   = Inl OutOfRange"
  by code_simp

section \<open>Rows without a difference and repeated runs\<close>

lemma scanLoop_clean:
  "scanLoop nl dm n x hb runs = Inr (hb', runs') \<Longrightarrow> 0 \<le> x \<Longrightarrow>
   (\<forall>c. 0 \<le> c \<and> c < n \<longrightarrow> \<not> maskAt dm c) \<Longrightarrow> runs' = runs"
proof (induction nl dm n x hb runs rule: scanLoop.induct)
  case (1 nl dm n x hb runs)
  note unf = scanLoop.simps[of nl dm n x hb runs]
  show ?case
  proof (cases "x < n")
    case False
    with "1.prems"(1) show ?thesis by (simp add: unf)
  next
    case xn: True
    then obtain ch where ch: "nl x = Inr ch"
      using "1.prems"(1) by (cases "nl x") (simp_all add: unf)
    define hb1 where "hb1 = (hb \<or> (rendition ch AND RE_BLINK) \<noteq> 0)"
    from "1.prems"(2,3) xn have clean: "\<not> maskAt dm x" by simp
    with xn ch "1.prems"(1) have r: "scanLoop nl dm n (x + 1) hb1 runs = Inr (hb', runs')"
      by (simp add: unf hb1_def Let_def)
    from "1.IH"(3)[OF xn ch hb1_def clean r _ "1.prems"(3)] "1.prems"(2)
    show ?thesis by simp
  qed
qed

lemma rowRuns_clean:
  assumes r: "rowRuns d sw cols img y = Inr runs"
    and noim: "m_imPreeditLength d \<le> 0"
    and same: "\<forall>x. 0 \<le> x \<and> x < cols \<longrightarrow> currentLineOf d img y x = newLineOf sw y x"
  shows "runs = []"
proof -
  from r obtain dm where dm: "dirtyMaskRow d y (newLineOf sw y) (currentLineOf d img y) cols = Inr dm"
    by (cases "dirtyMaskRow d y (newLineOf sw y) (currentLineOf d img y) cols")
       (simp_all add: rowRuns_def)
  from r dm obtain h where sc: "scanRow d (newLineOf sw y) dm cols False = Inr (h, runs)"
    by (cases "scanRow d (newLineOf sw y) dm cols False") (auto simp: rowRuns_def)
  have nospan: "\<And>c. \<not> imSpan d y c" using noim by (simp add: imSpan_def)
  have clean: "\<forall>c. 0 \<le> c \<and> c < cols \<longrightarrow> \<not> maskAt dm c"
  proof (intro allI impI)
    fix c assume c: "0 \<le> c \<and> c < cols"
    then have "-1 \<le> c" "c \<le> cols" by simp_all
    from dirtyMaskRow_maskAt(2)[OF dm this] nospan same
    show "\<not> maskAt dm c" by auto
  qed
  show ?thesis
  proof (cases "resizing d")
    case True
    with sc show ?thesis by (simp add: scanRow_def)
  next
    case False
    with sc have "scanLoop (newLineOf sw y) dm cols 0 False [] = Inr (h, runs)"
      by (simp add: scanRow_def)
    from scanLoop_clean[OF this _ clean] show ?thesis by simp
  qed
qed

lemma currentLineOf_fields [simp]:
  "currentLineOf (d\<lparr> image := i \<rparr>) = currentLineOf d"
  "currentLineOf (d\<lparr> hasBlinker := h \<rparr>) = currentLineOf d"
  "currentLineOf (d\<lparr> usedLines := ul \<rparr>) = currentLineOf d"
  "currentLineOf (d\<lparr> usedColumns := uc \<rparr>) = currentLineOf d"
  by (rule ext, rule ext, rule ext, simp add: currentLineOf_def)+

lemma doubleHeightAt_fields [simp]:
  "doubleHeightAt (d\<lparr> image := i \<rparr>) = doubleHeightAt d"
  "doubleHeightAt (d\<lparr> hasBlinker := h \<rparr>) = doubleHeightAt d"
  "doubleHeightAt (d\<lparr> usedLines := ul \<rparr>) = doubleHeightAt d"
  "doubleHeightAt (d\<lparr> usedColumns := uc \<rparr>) = doubleHeightAt d"
  by (rule ext, simp add: doubleHeightAt_def)+

lemma dirtyLoop_total:
  "(\<forall>c. x \<le> c \<and> c < n \<longrightarrow> imSpan d y c \<or> ((\<exists>a. nl c = Inr a) \<and> (\<exists>b. cl c = Inr b))) \<Longrightarrow>
   \<exists>m'. dirtyLoop d y nl cl n x m = Inr m'"
proof (induction d y nl cl n x m rule: dirtyLoop.induct)
  case (1 d y nl cl n x m)
  note unf = dirtyLoop.simps[of d y nl cl n x m]
  show ?case
  proof (cases "x < n")
    case False
    then show ?thesis by (simp add: unf)
  next
    case xn: True
    from "1.prems" have rest: "\<forall>c. x + 1 \<le> c \<and> c < n \<longrightarrow>
        imSpan d y c \<or> ((\<exists>a. nl c = Inr a) \<and> (\<exists>b. cl c = Inr b))" by simp
    show ?thesis
    proof (cases "imSpan d y x")
      case True
      from "1.IH"(1)[OF xn True rest] xn True show ?thesis by (simp add: unf)
    next
      case False
      with "1.prems" xn obtain a b where ab: "nl x = Inr a" "cl x = Inr b" by force
      from "1.IH"(2)[OF xn False ab rest] xn False ab show ?thesis by (simp add: unf)
    qed
  qed
qed

lemma scanLoop_clean_total:
  "(\<forall>c. x \<le> c \<and> c < n \<longrightarrow> (\<exists>a. nl c = Inr a) \<and> \<not> maskAt dm c) \<Longrightarrow>
   \<exists>hb'. scanLoop nl dm n x hb runs = Inr (hb', runs)"
proof (induction nl dm n x hb runs rule: scanLoop.induct)
  case (1 nl dm n x hb runs)
  note unf = scanLoop.simps[of nl dm n x hb runs]
  show ?case
  proof (cases "x < n")
    case False
    then show ?thesis by (simp add: unf)
  next
    case xn: True
    with "1.prems" obtain ch where ch: "nl x = Inr ch" and clean: "\<not> maskAt dm x" by force
    define hb1 where "hb1 = (hb \<or> (rendition ch AND RE_BLINK) \<noteq> 0)"
    from "1.prems" have rest: "\<forall>c. x + 1 \<le> c \<and> c < n \<longrightarrow> (\<exists>a. nl c = Inr a) \<and> \<not> maskAt dm c"
      by simp
    from "1.IH"(3)[OF xn ch hb1_def clean rest] xn ch clean show ?thesis
      by (simp add: unf hb1_def Let_def)
  qed
qed

lemma memcpyCells_total:
  assumes "0 \<le> n"
    and "\<forall>j. 0 \<le> j \<and> j < n \<longrightarrow> (\<exists>a. cellAt dst (di + j) = Inr a) \<and> (\<exists>b. cellAt src (si + j) = Inr b)"
  shows "\<exists>dst'. memcpyCells dst di src si n = Inr dst'"
proof (cases "n = 0")
  case True
  then show ?thesis by (simp add: memcpyCells_def)
next
  case False
  with assms(1) have n: "0 < n" by simp
  from assms(2)[rule_format, of 0] n
  have "(\<exists>a. cellAt dst (di + 0) = Inr a) \<and> (\<exists>b. cellAt src (si + 0) = Inr b)"
    by simp
  then have lo: "0 \<le> di" "0 \<le> si" by (auto simp: cellAt_def split: if_splits)
  from assms(2)[rule_format, of "n - 1"] n
  have "(\<exists>a. cellAt dst (di + (n - 1)) = Inr a) \<and> (\<exists>b. cellAt src (si + (n - 1)) = Inr b)"
    by simp
  then have hi: "di + n \<le> int (length dst)" "si + n \<le> int (length src)"
    by (auto simp: cellAt_def split: if_splits)
  from n lo hi show ?thesis by (simp add: memcpyCells_def)
qed

lemma rowLoop_settled:
  "0 \<le> y \<Longrightarrow> cols \<le> columns d \<Longrightarrow> 0 \<le> cols \<or> n \<le> y \<Longrightarrow> m_imPreeditLength d \<le> 0 \<Longrightarrow>
   (\<forall>y'. y \<le> y' \<and> y' < n \<longrightarrow> \<not> doubleHeightAt d y') \<Longrightarrow>
   (\<forall>y' x. y \<le> y' \<and> y' < n \<and> 0 \<le> x \<and> x < cols \<longrightarrow>
      currentLineOf d img y' x = newLineOf sw y' x \<and> (\<exists>c. newLineOf sw y' x = Inr c)) \<Longrightarrow>
   \<exists>img' hb'. rowLoop d sw cols n y img region hb = Inr (img', region, hb')"
proof (induction d sw cols n y img region hb rule: rowLoop.induct)
  case (1 d sw cols n y img region hb)
  note unf = rowLoop.simps[of d sw cols n y img region hb]
  note y0 = "1.prems"(1) and cc = "1.prems"(2) and noim = "1.prems"(4)
    and nodh = "1.prems"(5) and agree = "1.prems"(6)
  show ?case
  proof (cases "y < n")
    case False
    then show ?thesis by (simp add: unf)
  next
    case yn: True
    with "1.prems"(3) have c0: "0 \<le> cols" by simp
    have nospan: "\<And>c. \<not> imSpan d y c" using noim by (simp add: imSpan_def)
    have rd: "\<And>x. 0 \<le> x \<Longrightarrow> x < cols \<Longrightarrow>
        currentLineOf d img y x = newLineOf sw y x \<and> (\<exists>c. newLineOf sw y x = Inr c)"
      using agree yn by simp
    have "\<exists>m'. dirtyLoop d y (newLineOf sw y) (currentLineOf d img y) cols 0
        (replicate (nat (cols + 2)) False) = Inr m'"
      by (rule dirtyLoop_total) (use rd in auto)
    then obtain dm where dm: "dirtyMaskRow d y (newLineOf sw y) (currentLineOf d img y) cols = Inr dm"
      by (auto simp: dirtyMaskRow_def)
    have clean: "\<not> maskAt dm c" if "0 \<le> c" "c < cols" for c
    proof -
      from that have "-1 \<le> c" "c \<le> cols" by simp_all
      from dirtyMaskRow_maskAt(2)[OF dm this] nospan rd show ?thesis by auto
    qed
    have "\<exists>hb'. scanLoop (newLineOf sw y) dm cols 0 hb [] = Inr (hb', [])"
      by (rule scanLoop_clean_total) (use rd clean in auto)
    then obtain hb1 where sc: "scanRow d (newLineOf sw y) dm cols hb = Inr (hb1, [])"
      by (cases "resizing d") (auto simp: scanRow_def)
    have "\<exists>img1. memcpyCells img (y * columns d) (windowImage sw) (y * windowColumns sw) cols = Inr img1"
    proof (rule memcpyCells_total[OF c0], intro allI impI)
      fix j assume j: "0 \<le> j \<and> j < cols"
      with rd[of j] show "(\<exists>a. cellAt img (y * columns d + j) = Inr a) \<and>
          (\<exists>b. cellAt (windowImage sw) (y * windowColumns sw + j) = Inr b)"
        by (auto simp: currentLineOf_def newLineOf_def)
    qed
    then obtain img1 where mc: "memcpyCells img (y * columns d) (windowImage sw) (y * windowColumns sw) cols = Inr img1" ..
    have ul: "\<not> ([] \<noteq> ([] :: Run list) \<or> doubleHeightAt d y)" using nodh yn by simp
    have dr: "diffRow d sw cols y img hb = Inr ([], False, img1, hb1)"
      using ul by (simp add: diffRow_def dm sc mc Let_def)
    have nodh': "\<forall>y'. y + 1 \<le> y' \<and> y' < n \<longrightarrow> \<not> doubleHeightAt d y'" using nodh by simp
    have agree': "\<forall>y' x. y + 1 \<le> y' \<and> y' < n \<and> 0 \<le> x \<and> x < cols \<longrightarrow>
        currentLineOf d img1 y' x = newLineOf sw y' x \<and> (\<exists>c. newLineOf sw y' x = Inr c)"
    proof (intro allI impI)
      fix y' x assume a: "y + 1 \<le> y' \<and> y' < n \<and> 0 \<le> x \<and> x < cols"
      then have ne: "y \<noteq> y'" and x0: "0 \<le> x" and xc: "x < columns d" using cc by simp_all
      from row_disjoint[OF ne x0 xc c0 cc]
      have "y' * columns d + x < y * columns d \<or> y * columns d + cols \<le> y' * columns d + x" .
      from memcpyCells_frame[OF mc this]
      have "currentLineOf d img1 y' x = currentLineOf d img y' x" by (simp add: currentLineOf_def)
      with agree a show "currentLineOf d img1 y' x = newLineOf sw y' x \<and> (\<exists>c. newLineOf sw y' x = Inr c)"
        by simp
    qed
    have y1: "0 \<le> y + 1" using y0 by simp
    have c1: "0 \<le> cols \<or> n \<le> y + 1" using c0 by simp
    from "1.IH"[OF yn dr refl refl refl y1 cc c1 noim nodh' agree']
    obtain img' hb' where "rowLoop d sw cols n (y + 1) img1 region hb1 = Inr (img', region, hb')"
      by auto
    with yn dr show ?thesis by (simp add: unf)
  qed
qed

lemma prepareImage_settled:
  "scrollCount sw = 0 \<Longrightarrow> image d = Some img \<Longrightarrow> prepareImage d sw junk = Inr d"
  by (simp add: prepareImage_def scrollImage_def)

text \<open>
  C6 (as amended). After a run of \<^verbatim>\<open>updateImage\<close> that returned, a second run on its
  results (the display it left and the same window) returns too, and its region is
  empty, provided that no input composition is active and that no row of the used
  extent has the double-height flag. The first run has copied the new cells over the
  retained ones on the compared extent and has set the used extent to the compared one.
\<close>

theorem second_run_empty_region:
  assumes u: "updateImage d sw junk = Inr (d1, sw1, r1)"
    and noim: "m_imPreeditLength d1 \<le> 0"
    and nodh: "\<forall>y. 0 \<le> y \<and> y < usedLines d1 \<longrightarrow> \<not> doubleHeightAt d1 y"
  shows "\<exists>d2. updateImage d1 sw1 junk' = Inr (d2, sw1, [])"
  using u
proof (cases rule: updateImage_Inr)
  case (compared d0 img img' rows hb)
  let ?cols = "columnsToUpdateOf d0 sw" and ?n = "linesToUpdateOf d0 sw"
  note d1 = compared(7) and sw1 = compared(8)
  from rowLoop_facts[OF compared(5)] have
    agree: "\<forall>y' x. 0 \<le> y' \<and> y' < ?n \<and> 0 \<le> x \<and> x < ?cols \<longrightarrow>
      currentLineOf d0 img' y' x = newLineOf sw y' x \<and> (\<exists>c. newLineOf sw y' x = Inr c)"
    and c0: "0 < ?n \<longrightarrow> 0 \<le> ?cols"
    by (simp_all add: columnsToUpdateOf_def)
  have i1: "image d1 = Some img'" by (simp add: d1)
  have sc: "scrollCount sw1 = 0" by (simp add: sw1)
  have p: "prepareImage d1 sw1 junk' = Inr d1" by (rule prepareImage_settled[OF sc i1])
  have ext: "linesToUpdateOf d1 sw1 = ?n" "columnsToUpdateOf d1 sw1 = ?cols"
    by (simp_all add: d1 sw1 linesToUpdateOf_def columnsToUpdateOf_def)
  have used: "usedLines d1 = ?n" "usedColumns d1 = ?cols" by (simp_all add: d1)
  have a: "usedLines d1 \<le> lines d1" "usedColumns d1 \<le> columns d1"
    by (simp_all add: d1 linesToUpdateOf_def columnsToUpdateOf_def)
  have cc: "?cols \<le> columns d1" by (simp add: d1 columnsToUpdateOf_def)
  have c1: "0 \<le> ?cols \<or> ?n \<le> 0" using c0 by auto
  have nodh': "\<forall>y'. 0 \<le> y' \<and> y' < ?n \<longrightarrow> \<not> doubleHeightAt d1 y'" using nodh used by simp
  have agree': "\<forall>y' x. 0 \<le> y' \<and> y' < ?n \<and> 0 \<le> x \<and> x < ?cols \<longrightarrow>
      currentLineOf d1 img' y' x = newLineOf (sw1\<lparr> scrollCount := 0 \<rparr>) y' x \<and>
      (\<exists>c. newLineOf (sw1\<lparr> scrollCount := 0 \<rparr>) y' x = Inr c)"
    using agree by (simp add: d1 sw1)
  from rowLoop_settled[OF _ cc c1 noim nodh' agree', of "[]" False]
  obtain img2 hb2 where
    r: "rowLoop d1 (sw1\<lparr> scrollCount := 0 \<rparr>) ?cols ?n 0 img' [] False = Inr (img2, [], hb2)"
    by auto
  have sw1': "sw1\<lparr> scrollCount := 0 \<rparr> = sw1" by (simp add: sw1)
  have "updateImage d1 sw1 junk' =
      Inr (d1\<lparr> image := Some img2, hasBlinker := hb2, usedLines := ?n, usedColumns := ?cols \<rparr>, sw1, [])"
    unfolding updateImage_def
    by (simp add: p a a[unfolded used] i1 ext r[unfolded sw1'] Let_def used sw1')
  then show ?thesis ..
qed


theorem second_run_empty_region_witness:
  "updateImage (gridDisplay 1 2 [blankCell, blankCell, blankCell] [])
     \<lparr> scrollCount = 0, windowImage = [glyph 0x41, blankCell, blankCell], windowLines = 1, windowColumns = 2 \<rparr>
     blankJunk
   = Inr (gridDisplay 1 2 [glyph 0x41, blankCell, blankCell] [],
          \<lparr> scrollCount = 0, windowImage = [glyph 0x41, blankCell, blankCell], windowLines = 1, windowColumns = 2 \<rparr>,
          [mkRect 1 1 2 1]) \<and>
   m_imPreeditLength (gridDisplay 1 2 [glyph 0x41, blankCell, blankCell] []) \<le> 0 \<and>
   updateImage (gridDisplay 1 2 [glyph 0x41, blankCell, blankCell] [])
     \<lparr> scrollCount = 0, windowImage = [glyph 0x41, blankCell, blankCell], windowLines = 1, windowColumns = 2 \<rparr>
     blankJunk
   = Inr (gridDisplay 1 2 [glyph 0x41, blankCell, blankCell] [],
          \<lparr> scrollCount = 0, windowImage = [glyph 0x41, blankCell, blankCell], windowLines = 1, windowColumns = 2 \<rparr>,
          [])"
proof -
  let ?d = "gridDisplay 1 2 [blankCell, blankCell, blankCell] []"
  let ?d1 = "gridDisplay 1 2 [glyph 0x41, blankCell, blankCell] []"
  let ?sw = "\<lparr> scrollCount = 0, windowImage = [glyph 0x41, blankCell, blankCell], windowLines = 1, windowColumns = 2 \<rparr>"
  have u: "updateImage ?d ?sw blankJunk = Inr (?d1, ?sw, [mkRect 1 1 2 1])" by code_simp
  have noim: "m_imPreeditLength ?d1 \<le> 0" by code_simp
  have nodh: "\<forall>y. 0 \<le> y \<and> y < usedLines ?d1 \<longrightarrow> \<not> doubleHeightAt ?d1 y"
    by (simp add: doubleHeightAt_def gridDisplay_def)
  have u2: "updateImage ?d1 ?sw blankJunk = Inr (?d1, ?sw, [])" by code_simp
  from second_run_empty_region[OF u noim nodh, of blankJunk] u noim u2
  show ?thesis by simp
qed

theorem second_run_double_height_row_redrawn:
  "updateImage (gridDisplay 1 2 [blankCell, blankCell, blankCell] [LINE_DOUBLEHEIGHT])
     \<lparr> scrollCount = 0, windowImage = [glyph 0x41, blankCell, blankCell], windowLines = 1, windowColumns = 2 \<rparr>
     blankJunk
   = Inr (gridDisplay 1 2 [glyph 0x41, blankCell, blankCell] [LINE_DOUBLEHEIGHT],
          \<lparr> scrollCount = 0, windowImage = [glyph 0x41, blankCell, blankCell], windowLines = 1, windowColumns = 2 \<rparr>,
          [mkRect 1 1 2 1]) \<and>
   updateImage (gridDisplay 1 2 [glyph 0x41, blankCell, blankCell] [LINE_DOUBLEHEIGHT])
     \<lparr> scrollCount = 0, windowImage = [glyph 0x41, blankCell, blankCell], windowLines = 1, windowColumns = 2 \<rparr>
     blankJunk
   = Inr (gridDisplay 1 2 [glyph 0x41, blankCell, blankCell] [LINE_DOUBLEHEIGHT],
          \<lparr> scrollCount = 0, windowImage = [glyph 0x41, blankCell, blankCell], windowLines = 1, windowColumns = 2 \<rparr>,
          [mkRect 1 1 2 1]) \<and>
   \<not> regionIsEmpty [mkRect 1 1 2 1]"
  by code_simp


section \<open>Properties of allocation and resize\<close>

lemma clearLoop_result:
  "0 \<le> i \<Longrightarrow> i \<le> n + 1 \<Longrightarrow> int (length img) = n + 1 \<Longrightarrow>
   clearLoop img i n = Inr (take (nat i) img @ replicate (nat (n + 1 - i)) blankCell)"
proof (induction img i n rule: clearLoop.induct)
  case (1 img i n)
  note unf = clearLoop.simps[of img i n]
  show ?case
  proof (cases "i \<le> n")
    case False
    then have e: "clearLoop img i n = Inr img" by (simp add: unf)
    from False "1.prems" have "i = n + 1" by simp
    with "1.prems" have "take (nat i) img @ replicate (nat (n + 1 - i)) blankCell = img" by simp
    with e show ?thesis by simp
  next
    case True
    with "1.prems" have rng: "0 \<le> i \<and> i < int (length img)" by simp
    have len: "int (length (img[nat i := blankCell])) = n + 1" using "1.prems" by simp
    from "1.IH"[OF True rng _ _ len] "1.prems" True
    have r: "clearLoop (img[nat i := blankCell]) (i + 1) n
        = Inr (take (nat (i + 1)) (img[nat i := blankCell]) @ replicate (nat (n + 1 - (i + 1))) blankCell)"
      by simp
    have s: "nat (i + 1) = Suc (nat i)" using "1.prems"(1) by simp
    have k: "nat i < length img" using rng by linarith
    have t: "take (Suc (nat i)) (img[nat i := blankCell]) = take (nat i) img @ [blankCell]"
      using k by (simp add: take_Suc_conv_app_nth)
    have m: "nat (n + 1 - i) = Suc (nat (n + 1 - (i + 1)))" using True by simp
    from True rng r show ?thesis
      unfolding unf s t m by simp
  qed
qed

lemma makeImage_Inr:
  assumes "makeImage d junk = Inr d'"
  obtains (made) d1 where "calcGeometry d = Inr d1"
    and "0 < lines d1" and "0 < columns d1"
    and "usedLines d1 \<le> lines d1" and "usedColumns d1 \<le> columns d1"
    and "d' = d1\<lparr> image_size := lines d1 * columns d1,
                   image := Some (replicate (nat (lines d1 * columns d1 + 1)) blankCell) \<rparr>"
proof -
  from assms obtain d1 where g: "calcGeometry d = Inr d1"
    by (cases "calcGeometry d") (simp_all add: makeImage_def)
  have a: "0 < lines d1 \<and> 0 < columns d1"
  proof (rule ccontr)
    assume "\<not> (0 < lines d1 \<and> 0 < columns d1)"
    with assms g show False by (simp add: makeImage_def)
  qed
  have b: "usedLines d1 \<le> lines d1 \<and> usedColumns d1 \<le> columns d1"
  proof (rule ccontr)
    assume "\<not> (usedLines d1 \<le> lines d1 \<and> usedColumns d1 \<le> columns d1)"
    with assms g a show False by (simp add: makeImage_def)
  qed
  let ?n = "lines d1 * columns d1"
  have n0: "0 \<le> ?n" using a by simp
  have cl: "clearLoop (map junk [0..<nat (?n + 1)]) 0 ?n = Inr (replicate (nat (?n + 1)) blankCell)"
    using clearLoop_result[of 0 ?n "map junk [0..<nat (?n + 1)]"] n0 by simp
  from assms g a b have "d' = d1\<lparr> image_size := ?n, image := Some (replicate (nat (?n + 1)) blankCell) \<rparr>"
    by (simp add: makeImage_def Let_def clearImage_def cl)
  with g a b that show thesis by blast
qed

lemma copyLoop_facts:
  "copyLoop img columns' old oldcol cols lins lin = Inr img' \<Longrightarrow> 0 \<le> lin \<Longrightarrow> cols \<le> columns' \<Longrightarrow>
   length img' = length img \<and>
   (\<forall>l c. lin \<le> l \<and> l < lins \<and> 0 \<le> c \<and> c < cols \<longrightarrow>
      cellAt img' (l * columns' + c) = cellAt old (l * oldcol + c) \<and>
      (\<exists>v. cellAt old (l * oldcol + c) = Inr v)) \<and>
   (\<forall>k. (\<forall>l. lin \<le> l \<and> l < lins \<longrightarrow> k < l * columns' \<or> l * columns' + cols \<le> k)
      \<longrightarrow> cellAt img' k = cellAt img k) \<and>
   (lin < lins \<longrightarrow> 0 \<le> cols)"
proof (induction img columns' old oldcol cols lins lin rule: copyLoop.induct)
  case (1 img columns' old oldcol cols lins lin)
  note unf = copyLoop.simps[of img columns' old oldcol cols lins lin]
  note l0 = \<open>0 \<le> lin\<close> and cc = \<open>cols \<le> columns'\<close>
  show ?case
  proof (cases "lin < lins")
    case False
    with "1.prems"(1) have "img' = img" by (simp add: unf)
    with False show ?thesis by auto
  next
    case ln: True
    from "1.prems"(1) ln obtain img1
      where mc0: "memcpyCells img (columns' * lin) old (oldcol * lin) cols = Inr img1"
      by (cases "memcpyCells img (columns' * lin) old (oldcol * lin) cols") (auto simp: unf)
    then have mc: "memcpyCells img (lin * columns') old (lin * oldcol) cols = Inr img1"
      by (simp add: mult.commute)
    from "1.prems"(1) ln mc0
    have r: "copyLoop img1 columns' old oldcol cols lins (lin + 1) = Inr img'"
      by (simp add: unf)
    have c0: "0 \<le> cols" using mc by (auto simp: memcpyCells_def split: if_splits)
    have l1: "0 \<le> lin + 1" using l0 by simp
    from "1.IH"[OF ln mc0 r l1 cc]
    have ih1: "length img' = length img1"
      and ih2: "\<And>l c. lin + 1 \<le> l \<Longrightarrow> l < lins \<Longrightarrow> 0 \<le> c \<Longrightarrow> c < cols \<Longrightarrow>
          cellAt img' (l * columns' + c) = cellAt old (l * oldcol + c) \<and>
          (\<exists>v. cellAt old (l * oldcol + c) = Inr v)"
      and ih3: "\<And>k. (\<forall>l. lin + 1 \<le> l \<and> l < lins \<longrightarrow> k < l * columns' \<or> l * columns' + cols \<le> k)
          \<Longrightarrow> cellAt img' k = cellAt img1 k"
      by blast+
    have g1: "length img' = length img" using ih1 memcpyCells_length[OF mc] by simp
    have g2: "cellAt img' (l * columns' + c) = cellAt old (l * oldcol + c) \<and>
          (\<exists>v. cellAt old (l * oldcol + c) = Inr v)"
      if "lin \<le> l" "l < lins" "0 \<le> c" "c < cols" for l c
    proof (cases "l = lin")
      case False
      with that have "lin + 1 \<le> l" by simp
      from ih2[OF this that(2,3,4)] show ?thesis .
    next
      case True
      from that cc have xc: "c < columns'" by simp
      have "\<forall>l'. lin + 1 \<le> l' \<and> l' < lins \<longrightarrow>
          lin * columns' + c < l' * columns' \<or> l' * columns' + cols \<le> lin * columns' + c"
      proof (intro allI impI)
        fix l' assume "lin + 1 \<le> l' \<and> l' < lins"
        then have "l' \<noteq> lin" by simp
        from row_disjoint[OF this that(3) xc c0 cc]
        show "lin * columns' + c < l' * columns' \<or> l' * columns' + cols \<le> lin * columns' + c" .
      qed
      from ih3[OF this] have "cellAt img' (lin * columns' + c) = cellAt img1 (lin * columns' + c)" .
      also have "\<dots> = cellAt old (lin * oldcol + c)"
        by (rule memcpyCells_copy(1)[OF mc that(3,4)])
      finally have "cellAt img' (lin * columns' + c) = cellAt old (lin * oldcol + c)" .
      moreover have "\<exists>v. cellAt old (lin * oldcol + c) = Inr v"
        using memcpyCells_copy(2)[OF mc that(3,4)] by simp
      ultimately show ?thesis using True by simp
    qed
    have g3: "cellAt img' k = cellAt img k"
      if "\<forall>l. lin \<le> l \<and> l < lins \<longrightarrow> k < l * columns' \<or> l * columns' + cols \<le> k" for k
    proof -
      from that have "\<forall>l. lin + 1 \<le> l \<and> l < lins \<longrightarrow> k < l * columns' \<or> l * columns' + cols \<le> k"
        by simp
      from ih3[OF this] have "cellAt img' k = cellAt img1 k" .
      also from that ln have "k < lin * columns' \<or> lin * columns' + cols \<le> k" by simp
      from memcpyCells_frame[OF mc this] have "cellAt img1 k = cellAt img k" .
      finally show ?thesis .
    qed
    from g1 g2 g3 c0 show ?thesis by blast
  qed
qed

lemma updateImageSize_Inr:
  assumes "updateImageSize d junk = Inr d'"
  obtains (fresh) d1 where "makeImage d junk = Inr d1" and "image d = None"
      and "d' = d1\<lparr> resizing := False \<rparr>"
    | (copied) d1 old img img' where "makeImage d junk = Inr d1" and "image d = Some old"
      and "image d1 = Some img"
      and "copyLoop img (columns d1) old (columns d) (min (columns d) (columns d1))
             (min (lines d) (lines d1)) 0 = Inr img'"
      and "d' = d1\<lparr> image := Some img', resizing := False \<rparr>"
proof -
  from assms obtain d1 where m: "makeImage d junk = Inr d1"
    by (cases "makeImage d junk") (simp_all add: updateImageSize_def Let_def)
  show thesis
  proof (cases "image d")
    case None
    with assms m have "d' = d1\<lparr> resizing := False \<rparr>"
      by (simp add: updateImageSize_def Let_def)
    from fresh[OF m None this] show thesis .
  next
    case (Some old)
    from assms m Some obtain img where i: "image d1 = Some img"
      by (cases "image d1") (simp_all add: updateImageSize_def Let_def)
    let ?c = "copyLoop img (columns d1) old (columns d) (min (columns d) (columns d1))
             (min (lines d) (lines d1)) 0"
    from assms m Some i obtain img' where c: "?c = Inr img'"
      by (cases ?c) (simp_all add: updateImageSize_def Let_def)
    from assms m Some i c have "d' = d1\<lparr> image := Some img', resizing := False \<rparr>"
      by (simp add: updateImageSize_def Let_def)
    from copied[OF m Some i c this] show thesis .
  qed
qed

lemma grid_index_bounds:
  assumes "0 \<le> lin" "lin < l" "0 \<le> c" "c < (cs::int)"
  shows "0 \<le> lin * cs + c" and "lin * cs + c < l * cs"
proof -
  from assms have cs: "0 < cs" by simp
  from assms cs show "0 \<le> lin * cs + c" by simp
  from assms have "lin + 1 \<le> l" by simp
  then have "(lin + 1) * cs \<le> l * cs" using cs by (intro mult_right_mono) auto
  with assms show "lin * cs + c < l * cs" by (simp add: algebra_simps)
qed

lemma cellAt_replicate:
  "0 \<le> k \<Longrightarrow> k < int n \<Longrightarrow> cellAt (replicate n v) k = Inr v"
  by (simp add: cellAt_def)

text \<open>
  When \<^verbatim>\<open>updateImageSize\<close> returns, the display has a new image for its new lines and
  columns (with one cell more than the grid has). The cell of the new grid at line \<open>lin\<close>
  and column \<open>c\<close> is the cell at index \<open>lin * oldcol + c\<close> of the old array if
  \<open>lin < min oldlin lines\<close> and \<open>c < min oldcol columns\<close>, where \<open>oldlin\<close> and \<open>oldcol\<close>
  are the lines and columns at the call; every other cell, and every cell when there was
  no old image, is the blank cell.
\<close>

lemma updateImageSize_cells:
  assumes u: "updateImageSize d junk = Inr d'"
  shows "\<exists>img'. image d' = Some img' \<and> image_size d' = lines d' * columns d' \<and>
           int (length img') = lines d' * columns d' + 1 \<and>
           (\<forall>lin c. 0 \<le> lin \<and> lin < lines d' \<and> 0 \<le> c \<and> c < columns d' \<longrightarrow>
              cellAt img' (lin * columns d' + c) =
                (case image d of
                   None \<Rightarrow> Inr blankCell
                 | Some old \<Rightarrow>
                     if lin < min (lines d) (lines d') \<and> c < min (columns d) (columns d')
                     then Inr (old ! nat (lin * columns d + c))
                     else Inr blankCell))"
  using u
proof (cases rule: updateImageSize_Inr)
  case (fresh d1)
  from fresh(1) show ?thesis
  proof (cases rule: makeImage_Inr)
    case (made g)
    let ?n = "lines g * columns g"
    let ?img = "replicate (nat (?n + 1)) blankCell"
    have d': "d' = g\<lparr> image_size := ?n, image := Some ?img, resizing := False \<rparr>"
      using fresh(3) made(6) by simp
    have n0: "0 \<le> ?n" using made(2,3) by simp
    have cells: "cellAt ?img (lin * columns g + c) = Inr blankCell"
      if "0 \<le> lin" "lin < lines g" "0 \<le> c" "c < columns g" for lin c
      using grid_index_bounds[OF that] n0 by (intro cellAt_replicate) auto
    show ?thesis
      by (rule exI[of _ ?img]) (use n0 cells in \<open>simp add: d' fresh(2)\<close>)
  qed
next
  case (copied d1 old img img')
  from copied(1) show ?thesis
  proof (cases rule: makeImage_Inr)
    case (made g)
    let ?n = "lines g * columns g"
    let ?img = "replicate (nat (?n + 1)) blankCell"
    let ?cols = "min (columns d) (columns g)" and ?lins = "min (lines d) (lines g)"
    have d1: "lines d1 = lines g" "columns d1 = columns g" "image d1 = Some ?img"
      by (simp_all add: made(6))
    with copied(3) have img: "img = ?img" by simp
    have d': "d' = g\<lparr> image_size := ?n, image := Some img', resizing := False \<rparr>"
      using copied(5) made(6) by simp
    have n0: "0 \<le> ?n" using made(2,3) by simp
    have cp: "copyLoop ?img (columns g) old (columns d) ?cols ?lins 0 = Inr img'"
      using copied(4) d1 img by simp
    from copyLoop_facts[OF cp] have
      len: "length img' = length ?img"
      and inside: "\<And>l c. 0 \<le> l \<Longrightarrow> l < ?lins \<Longrightarrow> 0 \<le> c \<Longrightarrow> c < ?cols \<Longrightarrow>
          cellAt img' (l * columns g + c) = cellAt old (l * columns d + c) \<and>
          (\<exists>v. cellAt old (l * columns d + c) = Inr v)"
      and frame: "\<And>k. (\<forall>l. 0 \<le> l \<and> l < ?lins \<longrightarrow> k < l * columns g \<or> l * columns g + ?cols \<le> k)
          \<Longrightarrow> cellAt img' k = cellAt ?img k"
      and c0: "0 < ?lins \<longrightarrow> 0 \<le> ?cols"
      by simp_all
    have cells: "cellAt img' (lin * columns g + c) =
        (if lin < ?lins \<and> c < ?cols then Inr (old ! nat (lin * columns d + c)) else Inr blankCell)"
      if lc: "0 \<le> lin" "lin < lines g" "0 \<le> c" "c < columns g" for lin c
    proof (cases "lin < ?lins \<and> c < ?cols")
      case True
      from inside[OF lc(1) _ lc(3)] True
      have "cellAt img' (lin * columns g + c) = cellAt old (lin * columns d + c)"
        and "\<exists>v. cellAt old (lin * columns d + c) = Inr v" by simp_all
      then have "cellAt img' (lin * columns g + c) = Inr (old ! nat (lin * columns d + c))"
        by (auto simp: cellAt_def split: if_splits)
      with True show ?thesis by simp
    next
      case False
      have "\<forall>l. 0 \<le> l \<and> l < ?lins \<longrightarrow>
          lin * columns g + c < l * columns g \<or> l * columns g + ?cols \<le> lin * columns g + c"
      proof (intro allI impI)
        fix l assume l: "0 \<le> l \<and> l < ?lins"
        with c0 have cols0: "0 \<le> ?cols" by simp
        show "lin * columns g + c < l * columns g \<or> l * columns g + ?cols \<le> lin * columns g + c"
        proof (cases "l = lin")
          case True
          with l False have "\<not> c < ?cols" by blast
          then have "?cols \<le> c" by linarith
          with True show ?thesis by simp
        next
          case ne: False
          from row_disjoint[OF ne lc(3) lc(4) cols0] show ?thesis by simp
        qed
      qed
      from frame[OF this] have "cellAt img' (lin * columns g + c) = cellAt ?img (lin * columns g + c)" .
      also have "\<dots> = Inr blankCell"
        using grid_index_bounds[OF lc] n0 by (intro cellAt_replicate) auto
      finally have "cellAt img' (lin * columns g + c) = Inr blankCell" .
      with False show ?thesis by (simp only: if_False)
    qed
    show ?thesis
      by (rule exI[of _ img']) (use n0 cells len in \<open>simp add: d' copied(2)\<close>)
  qed
qed


section \<open>The extra cell of the image\<close>

lemma cellAt_nth_eq:
  "cellAt a k = cellAt b k \<Longrightarrow> 0 \<le> k \<Longrightarrow> k < int (length a) \<Longrightarrow> length a = length b \<Longrightarrow>
   a ! nat k = b ! nat k"
  by (simp add: cellAt_def)

lemma imageInvD:
  assumes "imageInv d" and "image d = Some img"
  shows "0 < lines d" and "0 < columns d" and "image_size d = lines d * columns d"
    and "int (length img) = image_size d + 1" and "img ! nat (image_size d) = blankCell"
    and "usedLines d \<le> lines d" and "usedColumns d \<le> columns d"
  using assms unfolding imageInv_def by auto

lemma memcpyCells_nonneg: "memcpyCells dst di src si n = Inr dst' \<Longrightarrow> 0 \<le> n"
  by (simp add: memcpyCells_def split: if_splits)

lemma imageInvI:
  assumes "image d = Some img"
    and "0 < lines d" and "0 < columns d" and "image_size d = lines d * columns d"
    and "int (length img) = image_size d + 1" and "img ! nat (image_size d) = blankCell"
    and "usedLines d \<le> lines d" and "usedColumns d \<le> columns d"
  shows "imageInv d"
  unfolding imageInv_def using assms by simp

lemma imageInv_None: "image d = None \<Longrightarrow> imageInv d"
  by (simp add: imageInv_def)

lemma imageInv_makeImage:
  assumes "makeImage d junk = Inr d'"
  shows "imageInv d' \<and> image d' = Some (replicate (nat (lines d' * columns d' + 1)) blankCell)"
  using assms
proof (cases rule: makeImage_Inr)
  case (made g)
  let ?img = "replicate (nat (lines g * columns g + 1)) blankCell"
  have n0: "0 \<le> lines g * columns g" using made(2,3) by simp
  then have s: "?img ! nat (lines g * columns g) = blankCell"
    by (intro nth_replicate) linarith
  have i: "image d' = Some ?img" by (simp add: made(6))
  have "imageInv d'"
    by (rule imageInvI[OF i]) (use made n0 s in simp_all)
  moreover have "image d' = Some (replicate (nat (lines d' * columns d' + 1)) blankCell)"
    by (simp add: made(6))
  ultimately show ?thesis by simp
qed

lemma last_row_end:
  assumes "l < lins" "lins \<le> (ls::int)" "cols \<le> cs" "0 < cs"
  shows "l * cs + cols \<le> ls * cs"
proof -
  from assms have "l + 1 \<le> ls" by simp
  then have "(l + 1) * cs \<le> ls * cs" using assms(4) by (intro mult_right_mono) auto
  with assms(3) show ?thesis by (simp add: algebra_simps)
qed

lemma imageInv_updateImageSize:
  assumes "updateImageSize d junk = Inr d'"
  shows "imageInv d'"
  using assms
proof (cases rule: updateImageSize_Inr)
  case (fresh d1)
  from imageInv_makeImage[OF fresh(1)] obtain img where inv1: "imageInv d1" and i1: "image d1 = Some img"
    by blast
  note f = imageInvD[OF inv1 i1]
  have i: "image d' = Some img" by (simp add: fresh(3) i1)
  show ?thesis
    by (rule imageInvI[OF i]) (use f in \<open>simp_all add: fresh(3)\<close>)
next
  case (copied d1 old img img')
  from imageInv_makeImage[OF copied(1)] have inv1: "imageInv d1" by simp
  note f = imageInvD[OF inv1 copied(3)]
  have cc: "min (columns d) (columns d1) \<le> columns d1" by simp
  from copyLoop_facts[OF copied(4) _ cc] have
    len: "length img' = length img"
    and frame: "\<And>k. (\<forall>l. 0 \<le> l \<and> l < min (lines d) (lines d1) \<longrightarrow>
          k < l * columns d1 \<or> l * columns d1 + min (columns d) (columns d1) \<le> k)
          \<Longrightarrow> cellAt img' k = cellAt img k"
    by simp_all
  have "\<forall>l. 0 \<le> l \<and> l < min (lines d) (lines d1) \<longrightarrow>
      image_size d1 < l * columns d1 \<or> l * columns d1 + min (columns d) (columns d1) \<le> image_size d1"
  proof (intro allI impI)
    fix l assume "0 \<le> l \<and> l < min (lines d) (lines d1)"
    then have "l < min (lines d) (lines d1)" by simp
    from last_row_end[OF this _ cc f(2)] f(3)
    show "image_size d1 < l * columns d1 \<or> l * columns d1 + min (columns d) (columns d1) \<le> image_size d1"
      by simp
  qed
  from frame[OF this] have "cellAt img' (image_size d1) = cellAt img (image_size d1)" .
  moreover have "0 \<le> image_size d1" using f(1,2,3) by simp
  ultimately have e: "img' ! nat (image_size d1) = img ! nat (image_size d1)"
    using f(4) len by (intro cellAt_nth_eq) auto
  have i: "image d' = Some img'" by (simp add: copied(5))
  show ?thesis
    by (rule imageInvI[OF i]) (use f len e in \<open>simp_all add: copied(5)\<close>)
qed

lemma imageInv_scrollImage:
  assumes inv: "imageInv d" and s: "scrollImage d k = Inr d'"
  shows "imageInv d'"
proof (cases "image d")
  case None
  with s have "d' = d" by (simp add: scrollImage_def)
  with inv show ?thesis by simp
next
  case (Some img)
  note f = imageInvD[OF inv Some]
  have n0: "0 \<le> image_size d" using f(1,2,3) by simp
  show ?thesis
  proof (cases "k = 0 \<or> \<bar>k\<bar> \<ge> usedLines d")
    case True
    with s Some have "d' = d" by (auto simp: scrollImage_def)
    with inv show ?thesis by simp
  next
    case act: False
    then have k: "k \<noteq> 0" "\<bar>k\<bar> < usedLines d" by simp_all
    let ?n = "(usedLines d - \<bar>k\<bar>) * usedColumns d"
    let ?di = "if k > 0 then 0 else \<bar>k\<bar> * usedColumns d"
    let ?si = "if k > 0 then k * usedColumns d else 0"
    from s Some act obtain img' where mc: "memcpyCells img ?di img ?si ?n = Inr img'"
      and d': "d' = d\<lparr> image := Some img' \<rparr>"
      by (cases "k > 0") (auto simp: scrollImage_def memmoveCells_def split: if_splits sum.splits)
    have len: "length img' = length img" by (rule memcpyCells_length[OF mc])
    have out: "image_size d < ?di \<or> ?di + ?n \<le> image_size d"
    proof (cases "?n = 0")
      case True
      have "\<bar>k\<bar> * usedColumns d \<le> image_size d \<or> image_size d < \<bar>k\<bar> * usedColumns d" by linarith
      with True n0 show ?thesis by auto
    next
      case False
      with memcpyCells_nonneg[OF mc] have "0 < ?n" by (simp only: order_less_le) simp
      with k have uc: "0 < usedColumns d" by (simp add: zero_less_mult_iff)
      have "usedLines d * usedColumns d \<le> lines d * columns d"
        using f(1,6,7) uc k by (intro mult_mono) auto
      moreover have "?di + ?n \<le> usedLines d * usedColumns d"
        using uc k by (auto simp: algebra_simps)
      ultimately show ?thesis using f(3) by simp
    qed
    from memcpyCells_frame[OF mc out] have "cellAt img' (image_size d) = cellAt img (image_size d)" .
    then have e: "img' ! nat (image_size d) = img ! nat (image_size d)"
      using n0 f(4) len by (intro cellAt_nth_eq) auto
    have i: "image d' = Some img'" by (simp add: d')
    show ?thesis
      by (rule imageInvI[OF i]) (use f len e in \<open>simp_all add: d'\<close>)
  qed
qed

lemma imageInv_prepareImage:
  assumes inv: "imageInv d" and p: "prepareImage d sw junk = Inr d2"
  shows "imageInv d2"
proof -
  from p obtain d1 where s: "scrollImage d (scrollCount sw) = Inr d1"
    by (cases "scrollImage d (scrollCount sw)") (simp_all add: prepareImage_def)
  note inv1 = imageInv_scrollImage[OF inv s]
  show ?thesis
  proof (cases "image d1")
    case None
    with p s have "updateImageSize d1 junk = Inr d2" by (simp add: prepareImage_def)
    then show ?thesis by (rule imageInv_updateImageSize)
  next
    case (Some a)
    with p s have "d2 = d1" by (simp add: prepareImage_def)
    with inv1 show ?thesis by simp
  qed
qed

lemma imageInv_updateImage:
  assumes inv: "imageInv d" and u: "updateImage d sw junk = Inr (d', sw', region)"
  shows "imageInv d'"
  using u
proof (cases rule: updateImage_Inr)
  case (compared d2 img img' rows hb)
  let ?cols = "columnsToUpdateOf d2 sw" and ?n = "linesToUpdateOf d2 sw"
  note inv2 = imageInv_prepareImage[OF inv compared(1)]
  note f = imageInvD[OF inv2 compared(4)]
  have cc: "?cols \<le> columns d2" and nn: "?n \<le> lines d2"
    by (simp_all add: columnsToUpdateOf_def linesToUpdateOf_def)
  from rowLoop_facts[OF compared(5) _ cc] have
    len: "length img' = length img"
    and frame: "\<And>k. (\<forall>y'. 0 \<le> y' \<and> y' < ?n \<longrightarrow> k < y' * columns d2 \<or> y' * columns d2 + ?cols \<le> k)
          \<Longrightarrow> cellAt img' k = cellAt img k"
    by simp_all
  have "\<forall>y'. 0 \<le> y' \<and> y' < ?n \<longrightarrow>
      image_size d2 < y' * columns d2 \<or> y' * columns d2 + ?cols \<le> image_size d2"
  proof (intro allI impI)
    fix y' assume "0 \<le> y' \<and> y' < ?n"
    then have "y' < ?n" by simp
    from last_row_end[OF this nn cc f(2)] f(3)
    show "image_size d2 < y' * columns d2 \<or> y' * columns d2 + ?cols \<le> image_size d2" by simp
  qed
  from frame[OF this] have "cellAt img' (image_size d2) = cellAt img (image_size d2)" .
  moreover have "0 \<le> image_size d2" using f(1,2,3) by simp
  ultimately have e: "img' ! nat (image_size d2) = img ! nat (image_size d2)"
    using f(4) len by (intro cellAt_nth_eq) auto
  have i: "image d' = Some img'" by (simp add: compared(7))
  show ?thesis
    by (rule imageInvI[OF i]) (use f len e cc nn in \<open>simp_all add: compared(7)\<close>)
qed

lemma probe_in_range:
  assumes inv: "imageInv d" and i: "image d = Some img" and l: "-1 \<le> loc d x y"
  shows "\<exists>b. doubleWidthProbe d x y = Inr b"
proof -
  note f = imageInvD[OF inv i]
  have "0 \<le> image_size d" using f(1,2,3) by simp
  with l f(4) have "0 \<le> probeIndex d x y \<and> probeIndex d x y < int (length img)"
    by (simp add: probeIndex_def)
  then show ?thesis by (simp add: doubleWidthProbe_def i cellAt_def)
qed

lemma probe_last_cell:
  assumes inv: "imageInv d" and i: "image d = Some img"
  shows "doubleWidthProbe d (columns d - 1) (lines d - 1) = Inr False"
proof -
  note f = imageInvD[OF inv i]
  have n0: "0 \<le> image_size d" using f(1,2,3) by simp
  have "loc d (columns d - 1) (lines d - 1) + 1 = image_size d"
    by (simp add: loc_def f(3) algebra_simps)
  then have p: "probeIndex d (columns d - 1) (lines d - 1) = image_size d"
    by (simp add: probeIndex_def)
  have "cellAt img (image_size d) = Inr blankCell" using n0 f(4,5) by (simp add: cellAt_def)
  then show ?thesis by (simp add: doubleWidthProbe_def i p blankCell_def)
qed

text \<open>
  C10. \<^verbatim>\<open>makeImage\<close> leaves an image of \<^verbatim>\<open>lines*columns + 1\<close> cells, all of them the
  blank cell, the last one at index \<^verbatim>\<open>image_size\<close>; this shape of the image, with the
  blank cell in its last place, is kept by \<^verbatim>\<open>updateImageSize\<close>, \<^verbatim>\<open>scrollImage\<close> and
  \<^verbatim>\<open>updateImage\<close>, the functions that write to the image. For a display of that shape
  the double-width probe of \<^verbatim>\<open>paintContents\<close> for a cell at \<open>(x, y)\<close> reads inside the
  image whenever the index after the cell is not negative (the cell itself is read
  first), and for the last cell of the grid it reads the blank cell at \<^verbatim>\<open>image_size\<close>,
  whose code point is the space: the last cell is not taken for the start of a
  double-width glyph.
\<close>

theorem sentinel_probe_safe:
  "(makeImage dm junk = Inr dm' \<longrightarrow>
      imageInv dm' \<and> image dm' = Some (replicate (nat (lines dm' * columns dm' + 1)) blankCell)) \<and>
   (updateImageSize dr junk = Inr dr' \<longrightarrow> imageInv dr') \<and>
   (imageInv ds \<and> scrollImage ds k = Inr ds' \<longrightarrow> imageInv ds') \<and>
   (imageInv du \<and> updateImage du sw junk = Inr (du', sw', region) \<longrightarrow> imageInv du') \<and>
   (imageInv d \<and> image d = Some img \<longrightarrow>
      (\<forall>x y. -1 \<le> loc d x y \<longrightarrow> (\<exists>b. doubleWidthProbe d x y = Inr b)) \<and>
      doubleWidthProbe d (columns d - 1) (lines d - 1) = Inr False)"
proof (intro conjI impI allI)
  assume "makeImage dm junk = Inr dm'"
  from imageInv_makeImage[OF this]
  show "imageInv dm'" and "image dm' = Some (replicate (nat (lines dm' * columns dm' + 1)) blankCell)"
    by simp_all
next
  assume "updateImageSize dr junk = Inr dr'"
  then show "imageInv dr'" by (rule imageInv_updateImageSize)
next
  assume "imageInv ds \<and> scrollImage ds k = Inr ds'"
  then show "imageInv ds'" using imageInv_scrollImage by blast
next
  assume "imageInv du \<and> updateImage du sw junk = Inr (du', sw', region)"
  then show "imageInv du'" using imageInv_updateImage by blast
next
  fix x y assume "imageInv d \<and> image d = Some img" and "-1 \<le> loc d x y"
  then show "\<exists>b. doubleWidthProbe d x y = Inr b" using probe_in_range by blast
next
  assume "imageInv d \<and> image d = Some img"
  then show "doubleWidthProbe d (columns d - 1) (lines d - 1) = Inr False"
    using probe_last_cell by blast
qed


theorem sentinel_probe_safe_witness:
  "makeImage (initialDisplay (mkRect 0 0 4 3) 0) blankJunk
     = Inr ((initialDisplay (mkRect 0 0 4 3) 0)
              \<lparr> lines := 2, columns := 2, contentHeight := 2, contentWidth := 2,
                image := Some [blankCell, blankCell, blankCell, blankCell, blankCell], image_size := 4 \<rparr>) \<and>
   imageInv ((initialDisplay (mkRect 0 0 4 3) 0)
              \<lparr> lines := 2, columns := 2, contentHeight := 2, contentWidth := 2,
                image := Some [blankCell, blankCell, blankCell, blankCell, blankCell], image_size := 4 \<rparr>) \<and>
   updateImageSize (initialDisplay (mkRect 0 0 4 3) 0) blankJunk
     = Inr ((initialDisplay (mkRect 0 0 4 3) 0)
              \<lparr> lines := 2, columns := 2, contentHeight := 2, contentWidth := 2,
                image := Some [blankCell, blankCell, blankCell, blankCell, blankCell], image_size := 4 \<rparr>) \<and>
   imageInv (gridDisplay 2 2 [glyph 0x41, blankCell, glyph 0x42, blankCell, blankCell] []) \<and>
   scrollImage (gridDisplay 2 2 [glyph 0x41, blankCell, glyph 0x42, blankCell, blankCell] []) 1
     = Inr (gridDisplay 2 2 [glyph 0x42, blankCell, glyph 0x42, blankCell, blankCell] []) \<and>
   imageInv (gridDisplay 2 2 [glyph 0x42, blankCell, glyph 0x42, blankCell, blankCell] []) \<and>
   updateImage (gridDisplay 2 2 [glyph 0x41, blankCell, glyph 0x42, blankCell, blankCell] [])
      \<lparr> scrollCount = 0, windowImage = [glyph 0x41, blankCell, glyph 0x42, glyph 0x43, blankCell],
        windowLines = 2, windowColumns = 2 \<rparr> blankJunk
     = Inr (gridDisplay 2 2 [glyph 0x41, blankCell, glyph 0x42, glyph 0x43, blankCell] [],
            \<lparr> scrollCount = 0, windowImage = [glyph 0x41, blankCell, glyph 0x42, glyph 0x43, blankCell],
              windowLines = 2, windowColumns = 2 \<rparr>,
            [mkRect 1 2 2 1]) \<and>
   imageInv (gridDisplay 2 2 [glyph 0x41, blankCell, glyph 0x42, glyph 0x43, blankCell] []) \<and>
   doubleWidthProbe (gridDisplay 2 2 [glyph 0x41, blankCell, glyph 0x42, blankCell, blankCell] []) 1 1
     = Inr False"
proof -
  let ?d0 = "initialDisplay (mkRect 0 0 4 3) 0"
  let ?dm = "?d0\<lparr> lines := 2, columns := 2, contentHeight := 2, contentWidth := 2,
                image := Some [blankCell, blankCell, blankCell, blankCell, blankCell], image_size := 4 \<rparr>"
  let ?img = "[glyph 0x41, blankCell, glyph 0x42, blankCell, blankCell]"
  let ?dg = "gridDisplay 2 2 ?img []"
  let ?ds = "gridDisplay 2 2 [glyph 0x42, blankCell, glyph 0x42, blankCell, blankCell] []"
  let ?sw = "\<lparr> scrollCount = 0, windowImage = [glyph 0x41, blankCell, glyph 0x42, glyph 0x43, blankCell],
        windowLines = 2, windowColumns = 2 \<rparr>"
  let ?du = "gridDisplay 2 2 [glyph 0x41, blankCell, glyph 0x42, glyph 0x43, blankCell] []"
  have m: "makeImage ?d0 blankJunk = Inr ?dm" by code_simp
  have r: "updateImageSize ?d0 blankJunk = Inr ?dm" by code_simp
  have g: "imageInv ?dg" by code_simp
  have s: "scrollImage ?dg 1 = Inr ?ds" by code_simp
  have u: "updateImage ?dg ?sw blankJunk = Inr (?du, ?sw, [mkRect 1 2 2 1])" by code_simp
  have i: "image ?dg = Some ?img" by code_simp
  have lc: "columns ?dg - 1 = 1" "lines ?dg - 1 = 1" by code_simp+
  from sentinel_probe_safe[where dm = ?d0 and junk = blankJunk and dm' = ?dm and dr = ?d0 and dr' = ?dm
      and ds = ?dg and k = 1 and ds' = ?ds and du = ?dg and sw = ?sw and du' = ?du and sw' = ?sw
      and region = "[mkRect 1 2 2 1]" and d = ?dg and img = ?img]
    m r g s u i
  have "imageInv ?dm" "imageInv ?ds" "imageInv ?du"
    "doubleWidthProbe ?dg (columns ?dg - 1) (lines ?dg - 1) = Inr False"
    by blast+
  with m r g s u show ?thesis unfolding lc by simp
qed


section \<open>The used extent and the return of \<^verbatim>\<open>updateImage\<close>\<close>

lemma used_extent_after:
  assumes u: "updateImage d sw junk = Inr (d', sw', region)"
  shows "usedLines d' = min (lines d') (max 0 (windowLines sw)) \<and>
         usedColumns d' = min (columns d') (max 0 (windowColumns sw)) \<and>
         (\<forall>d2. prepareImage d sw junk = Inr d2 \<longrightarrow>
            lines d' = lines d2 \<and> columns d' = columns d2 \<and>
            (usedLines d' < usedLines d2 \<longrightarrow> clearLinesRect d2 (usedLines d') \<in> set region) \<and>
            (usedColumns d' < usedColumns d2 \<longrightarrow> clearColumnsRect d2 (usedColumns d') \<in> set region))"
  using u
proof (cases rule: updateImage_Inr)
  case (compared d2 img img' rows hb)
  note p = compared(1) and reg = compared(6) and d' = compared(7)
  have 1: "usedLines d' = min (lines d') (max 0 (windowLines sw))"
    and 2: "usedColumns d' = min (columns d') (max 0 (windowColumns sw))"
    by (simp_all add: d' linesToUpdateOf_def columnsToUpdateOf_def)
  have 3: "lines d' = lines d2 \<and> columns d' = columns d2 \<and>
            (usedLines d' < usedLines d2 \<longrightarrow> clearLinesRect d2 (usedLines d') \<in> set region) \<and>
            (usedColumns d' < usedColumns d2 \<longrightarrow> clearColumnsRect d2 (usedColumns d') \<in> set region)"
    unfolding reg by (simp add: d')
  from 1 2 3 p show ?thesis by simp
qed



lemma runLoop_total:
  "(\<forall>i. x + len \<le> i \<and> i \<le> x + lln \<longrightarrow> (\<exists>a. nl i = Inr a)) \<Longrightarrow>
   \<exists>r. runLoop nl dm x lln h len dis = Inr r"
proof (induction nl dm x lln h len dis rule: runLoop.induct)
  case (1 newLine dm x lln h len dis)
  note unf = runLoop.simps[of newLine dm x lln h len dis]
  show ?case
  proof (cases "len < lln")
    case False
    then show ?thesis by (simp add: unf)
  next
    case True
    with "1.prems" obtain ch where ch: "newLine (x + len) = Inr ch" by force
    from "1.prems" have rest: "\<forall>i. x + (len + 1) \<le> i \<and> i \<le> x + lln \<longrightarrow> (\<exists>a. newLine i = Inr a)"
      by simp
    show ?thesis
    proof (cases "character ch = 0")
      case z: True
      from "1.IH"(1)[OF True ch z rest] True ch z show ?thesis by (simp add: unf)
    next
      case nz: False
      show ?thesis
      proof (cases "foregroundColor ch \<noteq> cf h \<or> backgroundColor ch \<noteq> cb h
                     \<or> uint (rendition ch) \<noteq> cr h \<or> \<not> maskAt dm (x + len)
                     \<or> isLineChar (character ch) \<noteq> lineDraw h")
        case br: True
        with True ch nz show ?thesis by (simp add: unf)
      next
        case nb: False
        from "1.prems" True obtain nx where nx: "newLine (x + len + 1) = Inr nx" by force
        show ?thesis
        proof (cases "(character nx = 0) \<noteq> doubleWidth h")
          case dw: True
          with True ch nz nb nx show ?thesis by (simp add: unf)
        next
          case False
          from "1.IH"(2)[OF True ch nz nb nx False rest] True ch nz nb nx False
          show ?thesis by (simp add: unf)
        qed
      qed
    qed
  qed
qed

lemma scanLoop_total:
  "(\<forall>i. x \<le> i \<and> i \<le> n \<longrightarrow> (\<exists>a. nl i = Inr a)) \<Longrightarrow>
   \<exists>r. scanLoop nl dm n x hb runs = Inr r"
proof (induction nl dm n x hb runs rule: scanLoop.induct)
  case (1 nl dm n x hb runs)
  note unf = scanLoop.simps[of nl dm n x hb runs]
  show ?case
  proof (cases "x < n")
    case False
    then show ?thesis by (simp add: unf)
  next
    case xn: True
    with "1.prems" obtain ch where ch: "nl x = Inr ch" by force
    define hb1 where "hb1 = (hb \<or> (rendition ch AND RE_BLINK) \<noteq> 0)"
    from "1.prems" have rest: "\<forall>i. x + 1 \<le> i \<and> i \<le> n \<longrightarrow> (\<exists>a. nl i = Inr a)" by simp
    show ?thesis
    proof (cases "maskAt dm x")
      case False
      from "1.IH"(3)[OF xn ch hb1_def False rest] xn ch False show ?thesis
        by (simp add: unf hb1_def Let_def)
    next
      case dirty: True
      show ?thesis
      proof (cases "character ch = 0")
        case z: True
        from "1.IH"(1)[OF xn ch hb1_def dirty z rest] xn ch dirty z show ?thesis
          by (simp add: unf hb1_def Let_def)
      next
        case nz: False
        from "1.prems" xn obtain nx where nx: "nl (x + 1) = Inr nx" by force
        have "\<exists>r. runLoop nl dm x (n - x) (runHead ch nx) 1 [character ch] = Inr r"
          by (rule runLoop_total) (use "1.prems" in simp)
        then obtain len dis
          where rl: "runLoop nl dm x (n - x) (runHead ch nx) 1 [character ch] = Inr (len, dis)"
          by auto
        have len1: "1 \<le> len" using runLoop_extent[OF rl] xn by simp
        have rest': "\<forall>i. x + len \<le> i \<and> i \<le> n \<longrightarrow> (\<exists>a. nl i = Inr a)"
          using "1.prems" len1 by simp
        from "1.IH"(2)[OF xn ch hb1_def dirty nz nx rl refl rest'] xn ch dirty nz nx rl
        show ?thesis by (simp add: unf hb1_def Let_def)
      qed
    qed
  qed
qed

lemma rowLoop_total:
  "0 \<le> y \<Longrightarrow> 0 \<le> cols \<Longrightarrow>
   (\<forall>y' i. y \<le> y' \<and> y' < n \<and> 0 \<le> i \<and> i \<le> cols \<longrightarrow> (\<exists>a. newLineOf sw y' i = Inr a)) \<Longrightarrow>
   (\<forall>y' i. y \<le> y' \<and> y' < n \<and> 0 \<le> i \<and> i < cols \<longrightarrow>
      0 \<le> y' * columns d + i \<and> y' * columns d + i < int (length img)) \<Longrightarrow>
   \<exists>r. rowLoop d sw cols n y img region hb = Inr r"
proof (induction d sw cols n y img region hb rule: rowLoop.induct)
  case (1 d sw cols n y img region hb)
  note unf = rowLoop.simps[of d sw cols n y img region hb]
  note y0 = "1.prems"(1) and c0 = "1.prems"(2) and new = "1.prems"(3) and old = "1.prems"(4)
  show ?case
  proof (cases "y < n")
    case False
    then show ?thesis by (simp add: unf)
  next
    case yn: True
    have rn: "\<And>i. 0 \<le> i \<Longrightarrow> i \<le> cols \<Longrightarrow> \<exists>a. newLineOf sw y i = Inr a"
      using new yn by simp
    have ro: "\<And>i. 0 \<le> i \<Longrightarrow> i < cols \<Longrightarrow> \<exists>b. currentLineOf d img y i = Inr b"
      using old yn by (simp add: currentLineOf_def cellAt_def)
    have "\<exists>m'. dirtyLoop d y (newLineOf sw y) (currentLineOf d img y) cols 0
        (replicate (nat (cols + 2)) False) = Inr m'"
      by (rule dirtyLoop_total) (use rn ro in auto)
    then obtain dm where dm: "dirtyMaskRow d y (newLineOf sw y) (currentLineOf d img y) cols = Inr dm"
      by (auto simp: dirtyMaskRow_def)
    have "\<exists>r. scanLoop (newLineOf sw y) dm cols 0 hb [] = Inr r"
      by (rule scanLoop_total) (use rn in auto)
    then have "\<exists>r. scanRow d (newLineOf sw y) dm cols hb = Inr r"
      by (cases "resizing d") (auto simp: scanRow_def)
    then obtain hb1 runs where sc: "scanRow d (newLineOf sw y) dm cols hb = Inr (hb1, runs)"
      by auto
    have "\<exists>img1. memcpyCells img (y * columns d) (windowImage sw) (y * windowColumns sw) cols = Inr img1"
    proof (rule memcpyCells_total[OF c0], intro allI impI)
      fix j assume j: "0 \<le> j \<and> j < cols"
      with rn[of j] ro[of j] show "(\<exists>a. cellAt img (y * columns d + j) = Inr a) \<and>
          (\<exists>b. cellAt (windowImage sw) (y * windowColumns sw + j) = Inr b)"
        by (auto simp: currentLineOf_def newLineOf_def)
    qed
    then obtain img1 where mc: "memcpyCells img (y * columns d) (windowImage sw) (y * windowColumns sw) cols = Inr img1" ..
    have dr: "diffRow d sw cols y img hb = Inr (runs, runs \<noteq> [] \<or> doubleHeightAt d y, img1, hb1)"
      by (simp add: diffRow_def dm sc mc Let_def)
    have len: "length img1 = length img" by (rule memcpyCells_length[OF mc])
    have y1: "0 \<le> y + 1" using y0 by simp
    have new': "\<forall>y' i. y + 1 \<le> y' \<and> y' < n \<and> 0 \<le> i \<and> i \<le> cols \<longrightarrow> (\<exists>a. newLineOf sw y' i = Inr a)"
      using new by simp
    have old': "\<forall>y' i. y + 1 \<le> y' \<and> y' < n \<and> 0 \<le> i \<and> i < cols \<longrightarrow>
      0 \<le> y' * columns d + i \<and> y' * columns d + i < int (length img1)"
      using old len by simp
    from "1.IH"[OF yn dr refl refl refl y1 c0 new' old'] yn dr show ?thesis
      by (simp add: unf)
  qed
qed

lemma scrollImage_total:
  assumes inv: "imageInv d" and i: "image d = Some img" and uc: "0 \<le> usedColumns d"
  shows "\<exists>img'. scrollImage d k = Inr (d\<lparr> image := Some img' \<rparr>)"
proof -
  note f = imageInvD[OF inv i]
  have same: "d\<lparr> image := Some img \<rparr> = d" using i by simp
  show ?thesis
  proof (cases "k = 0 \<or> \<bar>k\<bar> \<ge> usedLines d")
    case True
    then have "scrollImage d k = Inr (d\<lparr> image := Some img \<rparr>)"
      using i same by (auto simp: scrollImage_def)
    then show ?thesis ..
  next
    case act: False
    then have k: "k \<noteq> 0" "\<bar>k\<bar> < usedLines d" by simp_all
    let ?n = "(usedLines d - \<bar>k\<bar>) * usedColumns d"
    have n0: "0 \<le> ?n" using k uc by simp
    have tot: "usedLines d * usedColumns d \<le> lines d * columns d"
      using f(1,6,7) uc k by (intro mult_mono) auto
    have sum: "\<bar>k\<bar> * usedColumns d + ?n = usedLines d * usedColumns d"
      by (simp add: algebra_simps)
    have a0: "0 \<le> \<bar>k\<bar> * usedColumns d" using uc by simp
    have ln: "int (length img) = lines d * columns d + 1" using f(3,4) by simp
    show ?thesis
    proof (cases "k > 0")
      case True
      then have ak: "\<bar>k\<bar> = k" by simp
      have "k * usedColumns d \<le> usedLines d * usedColumns d" using n0 sum ak by linarith
      moreover have "k * usedColumns d < usedLines d * usedColumns d \<or> usedColumns d = 0"
        using k ak uc by (cases "usedColumns d = 0") (auto intro: mult_strict_right_mono)
      ultimately have as: "k * usedColumns d < image_size d"
        using tot f(1,2,3) by (cases "usedColumns d = 0") auto
      have "\<exists>img'. memcpyCells img 0 img (k * usedColumns d) ((usedLines d - k) * usedColumns d) = Inr img'"
        using n0 ak a0 sum tot ln by (auto simp: memcpyCells_def)
      then obtain img' where "memmoveCells img 0 (k * usedColumns d) ((usedLines d - k) * usedColumns d) = Inr img'"
        by (auto simp: memmoveCells_def)
      with True act as i have "scrollImage d k = Inr (d\<lparr> image := Some img' \<rparr>)"
        by (simp add: scrollImage_def)
      then show ?thesis ..
    next
      case False
      have "\<exists>img'. memcpyCells img (\<bar>k\<bar> * usedColumns d) img 0 ?n = Inr img'"
        using n0 a0 sum tot ln by (auto simp: memcpyCells_def)
      then obtain img' where "memmoveCells img (\<bar>k\<bar> * usedColumns d) 0 ?n = Inr img'"
        by (auto simp: memmoveCells_def)
      with False act i have "scrollImage d k = Inr (d\<lparr> image := Some img' \<rparr>)"
        by (simp add: scrollImage_def)
      then show ?thesis ..
    qed
  qed
qed


lemma updateImage_total:
  assumes inv: "imageInv d" and i: "image d = Some img" and uc: "0 \<le> usedColumns d"
    and wl: "0 \<le> windowLines sw" and wc: "0 \<le> windowColumns sw"
    and buf: "windowLines sw * windowColumns sw < int (length (windowImage sw))"
  shows "\<exists>d' region. updateImage d sw junk = Inr (d', sw\<lparr> scrollCount := 0 \<rparr>, region)"
proof -
  from scrollImage_total[OF inv i uc] obtain img1
    where s: "scrollImage d (scrollCount sw) = Inr (d\<lparr> image := Some img1 \<rparr>)" ..
  let ?d1 = "d\<lparr> image := Some img1 \<rparr>"
  have inv1: "imageInv ?d1" by (rule imageInv_scrollImage[OF inv s])
  have i1: "image ?d1 = Some img1" by simp
  note f = imageInvD[OF inv1 i1]
  have p: "prepareImage d sw junk = Inr ?d1" by (simp add: prepareImage_def s)
  let ?cols = "columnsToUpdateOf ?d1 sw" and ?n = "linesToUpdateOf ?d1 sw"
  let ?sw1 = "sw\<lparr> scrollCount := 0 \<rparr>"
  have c0: "0 \<le> ?cols" and cc: "?cols \<le> columns ?d1" and cw: "?cols \<le> windowColumns sw"
    and nl: "?n \<le> lines ?d1" and nw: "?n \<le> windowLines sw"
    using f(1,2) wl wc by (simp_all add: columnsToUpdateOf_def linesToUpdateOf_def)
  have new: "\<forall>y' i. 0 \<le> y' \<and> y' < ?n \<and> 0 \<le> i \<and> i \<le> ?cols \<longrightarrow>
      (\<exists>a. newLineOf ?sw1 y' i = Inr a)"
  proof (intro allI impI)
    fix y' i assume a: "0 \<le> y' \<and> y' < ?n \<and> 0 \<le> i \<and> i \<le> ?cols"
    then have "y' + 1 \<le> windowLines sw" using nw by simp
    then have "(y' + 1) * windowColumns sw \<le> windowLines sw * windowColumns sw"
      using wc by (intro mult_right_mono) auto
    moreover have "i \<le> windowColumns sw" using a cw by simp
    ultimately have hi: "y' * windowColumns sw + i < int (length (windowImage sw))"
      using buf by (simp add: algebra_simps)
    have lo: "0 \<le> y' * windowColumns sw + i" using a wc by simp
    from lo hi show "\<exists>a. newLineOf ?sw1 y' i = Inr a" by (simp add: newLineOf_def cellAt_def)
  qed
  have old: "\<forall>y' i. 0 \<le> y' \<and> y' < ?n \<and> 0 \<le> i \<and> i < ?cols \<longrightarrow>
      0 \<le> y' * columns ?d1 + i \<and> y' * columns ?d1 + i < int (length img1)"
  proof (intro allI impI)
    fix y' i assume a: "0 \<le> y' \<and> y' < ?n \<and> 0 \<le> i \<and> i < ?cols"
    then have b: "0 \<le> y'" "y' < lines ?d1" "0 \<le> i" "i < columns ?d1" using nl cc by simp_all
    from grid_index_bounds[OF b] f(3,4)
    show "0 \<le> y' * columns ?d1 + i \<and> y' * columns ?d1 + i < int (length img1)" by simp
  qed
  from rowLoop_total[OF _ c0 new old, of "[]" False]
  obtain r where r: "rowLoop ?d1 ?sw1 ?cols ?n 0 img1 [] False = Inr r" by auto
  obtain img' rows hb where r': "r = (img', rows, hb)" by (cases r)
  have a: "usedLines ?d1 \<le> lines ?d1" "usedColumns ?d1 \<le> columns ?d1" using f(6,7) by simp_all
  have "\<exists>d' region. updateImage d sw junk = Inr (d', ?sw1, region)"
    unfolding updateImage_def using p a i1 r r'
    by (simp add: Let_def del: TerminalDisplay.simps)
  then show ?thesis .
qed


text \<open>
  C9. \<^verbatim>\<open>updateImage\<close> asks for no equality of dimensions: for a display with an image
  of the shape that \<^verbatim>\<open>makeImage\<close> sets up and a window of any non-negative number of
  lines and columns whose buffer holds one cell more than its grid, the call returns.
  Whenever it returns, \<^verbatim>\<open>usedLines\<close> is the minimum of the lines of the display and the
  lines of the window (or 0, if the window reports a negative number), and the same holds
  for \<^verbatim>\<open>usedColumns\<close>. When the new used extent is smaller than the one at the start
  of the comparison, the clear-rectangle for the vacated lines, respectively columns, is
  part of the region.
\<close>

theorem used_extent_clamped:
  "(updateImage d sw junk = Inr (d', sw', region) \<longrightarrow>
      usedLines d' = min (lines d') (max 0 (windowLines sw)) \<and>
      usedColumns d' = min (columns d') (max 0 (windowColumns sw)) \<and>
      (\<forall>d2. prepareImage d sw junk = Inr d2 \<longrightarrow>
         lines d' = lines d2 \<and> columns d' = columns d2 \<and>
         (usedLines d' < usedLines d2 \<longrightarrow> clearLinesRect d2 (usedLines d') \<in> set region) \<and>
         (usedColumns d' < usedColumns d2 \<longrightarrow> clearColumnsRect d2 (usedColumns d') \<in> set region))) \<and>
   (imageInv d \<and> image d = Some img \<and> 0 \<le> usedColumns d \<and>
    0 \<le> windowLines sw \<and> 0 \<le> windowColumns sw \<and>
    windowLines sw * windowColumns sw < int (length (windowImage sw)) \<longrightarrow>
      (\<exists>e r. updateImage d sw junk = Inr (e, sw\<lparr> scrollCount := 0 \<rparr>, r)))"
proof (rule conjI)
  show "updateImage d sw junk = Inr (d', sw', region) \<longrightarrow>
      usedLines d' = min (lines d') (max 0 (windowLines sw)) \<and>
      usedColumns d' = min (columns d') (max 0 (windowColumns sw)) \<and>
      (\<forall>d2. prepareImage d sw junk = Inr d2 \<longrightarrow>
         lines d' = lines d2 \<and> columns d' = columns d2 \<and>
         (usedLines d' < usedLines d2 \<longrightarrow> clearLinesRect d2 (usedLines d') \<in> set region) \<and>
         (usedColumns d' < usedColumns d2 \<longrightarrow> clearColumnsRect d2 (usedColumns d') \<in> set region))"
  proof (rule impI)
    assume "updateImage d sw junk = Inr (d', sw', region)"
    then show "usedLines d' = min (lines d') (max 0 (windowLines sw)) \<and>
      usedColumns d' = min (columns d') (max 0 (windowColumns sw)) \<and>
      (\<forall>d2. prepareImage d sw junk = Inr d2 \<longrightarrow>
         lines d' = lines d2 \<and> columns d' = columns d2 \<and>
         (usedLines d' < usedLines d2 \<longrightarrow> clearLinesRect d2 (usedLines d') \<in> set region) \<and>
         (usedColumns d' < usedColumns d2 \<longrightarrow> clearColumnsRect d2 (usedColumns d') \<in> set region))"
      by (rule used_extent_after)
  qed
next
  show "imageInv d \<and> image d = Some img \<and> 0 \<le> usedColumns d \<and>
    0 \<le> windowLines sw \<and> 0 \<le> windowColumns sw \<and>
    windowLines sw * windowColumns sw < int (length (windowImage sw)) \<longrightarrow>
      (\<exists>e r. updateImage d sw junk = Inr (e, sw\<lparr> scrollCount := 0 \<rparr>, r))"
  proof (rule impI)
    assume a: "imageInv d \<and> image d = Some img \<and> 0 \<le> usedColumns d \<and>
      0 \<le> windowLines sw \<and> 0 \<le> windowColumns sw \<and>
      windowLines sw * windowColumns sw < int (length (windowImage sw))"
    show "\<exists>e r. updateImage d sw junk = Inr (e, sw\<lparr> scrollCount := 0 \<rparr>, r)"
      by (rule updateImage_total[of d img sw]) (use a in simp_all)
  qed
qed

theorem used_extent_clamped_witness:
  "imageInv (gridDisplay 2 3 [blankCell, blankCell, blankCell, blankCell, blankCell, blankCell, blankCell] []) \<and>
   updateImage (gridDisplay 2 3 [blankCell, blankCell, blankCell, blankCell, blankCell, blankCell, blankCell] [])
     \<lparr> scrollCount = 0, windowImage = [glyph 0x41, blankCell, blankCell], windowLines = 1, windowColumns = 2 \<rparr>
     blankJunk
   = Inr ((gridDisplay 2 3 [glyph 0x41, blankCell, blankCell, blankCell, blankCell, blankCell, blankCell] [])
             \<lparr> usedLines := 1, usedColumns := 2 \<rparr>,
          \<lparr> scrollCount = 0, windowImage = [glyph 0x41, blankCell, blankCell], windowLines = 1, windowColumns = 2 \<rparr>,
          [mkRect 1 1 2 1, mkRect 1 2 3 1, mkRect 3 1 1 2]) \<and>
   usedLines ((gridDisplay 2 3 [glyph 0x41, blankCell, blankCell, blankCell, blankCell, blankCell, blankCell] [])
             \<lparr> usedLines := 1, usedColumns := 2 \<rparr>) = min 2 (max 0 1) \<and>
   usedColumns ((gridDisplay 2 3 [glyph 0x41, blankCell, blankCell, blankCell, blankCell, blankCell, blankCell] [])
             \<lparr> usedLines := 1, usedColumns := 2 \<rparr>) = min 3 (max 0 2)"
proof -
  let ?img = "[blankCell, blankCell, blankCell, blankCell, blankCell, blankCell, blankCell]"
  let ?d = "gridDisplay 2 3 ?img []"
  let ?sw = "\<lparr> scrollCount = 0, windowImage = [glyph 0x41, blankCell, blankCell], windowLines = 1, windowColumns = 2 \<rparr>"
  let ?d' = "(gridDisplay 2 3 [glyph 0x41, blankCell, blankCell, blankCell, blankCell, blankCell, blankCell] [])
             \<lparr> usedLines := 1, usedColumns := 2 \<rparr>"
  have u: "updateImage ?d ?sw blankJunk = Inr (?d', ?sw, [mkRect 1 1 2 1, mkRect 1 2 3 1, mkRect 3 1 1 2])"
    by code_simp
  have inv: "imageInv ?d" by code_simp
  have pre: "image ?d = Some ?img" "0 \<le> usedColumns ?d" "0 \<le> windowLines ?sw" "0 \<le> windowColumns ?sw"
    "windowLines ?sw * windowColumns ?sw < int (length (windowImage ?sw))"
    by code_simp+
  have e: "lines ?d' = 2" "columns ?d' = 3" "windowLines ?sw = 1" "windowColumns ?sw = 2"
    by code_simp+
  from used_extent_clamped[of ?d ?sw blankJunk ?d' ?sw "[mkRect 1 1 2 1, mkRect 1 2 3 1, mkRect 3 1 1 2]" ?img]
    u inv pre
  have "usedLines ?d' = min (lines ?d') (max 0 (windowLines ?sw))"
    and "usedColumns ?d' = min (columns ?d') (max 0 (windowColumns ?sw))"
    by blast+
  with u inv show ?thesis unfolding e by simp
qed

section \<open>A window that equals the retained image\<close>

text \<open>
  C5 (as amended). Let the display have an image, let the window have the lines and
  columns of the display and a scroll count of 0, and let every cell of the window equal
  the retained cell at the same line and column, as they are when \<^verbatim>\<open>updateImage\<close> is
  called. If no input composition is active (\<^verbatim>\<open>m_imPreeditLength\<close> is not positive) and
  no row of the grid has the double-height flag, every region that the call passes on is
  empty: it holds no rectangle at all. For an image of the shape that \<^verbatim>\<open>makeImage\<close>
  sets up and a window buffer with one cell more than the grid, the call does return.
\<close>

theorem unchanged_grid_empty_region:
  assumes i: "image d = Some img" and sc: "scrollCount sw = 0"
    and dims: "windowLines sw = lines d" "windowColumns sw = columns d"
    and same: "\<forall>y x. 0 \<le> y \<and> y < lines d \<and> 0 \<le> x \<and> x < columns d \<longrightarrow>
                 newLineOf sw y x = currentLineOf d img y x"
    and noim: "m_imPreeditLength d \<le> 0"
    and nodh: "\<forall>y. 0 \<le> y \<and> y < lines d \<longrightarrow> \<not> doubleHeightAt d y"
  shows "(updateImage d sw junk = Inr (d', sw', region) \<longrightarrow> region = []) \<and>
         (imageInv d \<and> 0 \<le> usedColumns d \<and>
          lines d * columns d < int (length (windowImage sw)) \<longrightarrow>
            (\<exists>e. updateImage d sw junk = Inr (e, sw, [])))"
proof -
  have p: "prepareImage d sw junk = Inr d" by (rule prepareImage_settled[OF sc i])
  have empty: "r = []" if u: "updateImage d sw junk = Inr (e, s, r)" for e s r
    using p i u
  proof (cases rule: updateImage_rows)
    case (rows img' rws hb)
    let ?cols = "columnsToUpdateOf d sw" and ?n = "linesToUpdateOf d sw"
    let ?fl = "\<lambda>y. rowRuns d sw ?cols img y \<noteq> Inr [] \<or> doubleHeightAt d y"
    have n: "?n \<le> lines d" and c: "?cols \<le> columns d"
      by (simp_all add: linesToUpdateOf_def columnsToUpdateOf_def)
    have n': "\<not> ?n < usedLines d" using rows(4) dims by (simp add: linesToUpdateOf_def)
    have c': "\<not> ?cols < usedColumns d" using rows(5) dims by (simp add: columnsToUpdateOf_def)
    from rowLoop_facts[OF rows(1) _ rows(6)]
    have rws: "rws = map (dirtyRect d ?cols) (filter ?fl [0..?n - 1])"
      and ex: "\<And>y'. 0 \<le> y' \<Longrightarrow> y' < ?n \<Longrightarrow> \<exists>runs. rowRuns d sw ?cols img y' = Inr runs"
      by simp_all
    have "\<not> ?fl y" if "y \<in> set [0..?n - 1]" for y
    proof -
      from that have y: "0 \<le> y" "y < ?n" by simp_all
      from ex[OF y] obtain runs where r: "rowRuns d sw ?cols img y = Inr runs" ..
      have "\<forall>x. 0 \<le> x \<and> x < ?cols \<longrightarrow> currentLineOf d img y x = newLineOf sw y x"
        using same y n c by auto
      from rowRuns_clean[OF r noim this] r nodh y n show ?thesis by auto
    qed
    then have "filter ?fl [0..?n - 1] = []" by (simp add: filter_empty_conv)
    with rws rows(2) n' c' show ?thesis by simp
  qed
  have ret: "\<exists>e. updateImage d sw junk = Inr (e, sw, [])"
    if w: "imageInv d" "0 \<le> usedColumns d" "lines d * columns d < int (length (windowImage sw))"
  proof -
    from imageInvD[OF w(1) i] have l: "0 < lines d" "0 < columns d" by simp_all
    have wl: "0 \<le> windowLines sw" "0 \<le> windowColumns sw" using dims l by simp_all
    have buf: "windowLines sw * windowColumns sw < int (length (windowImage sw))"
      using w(3) dims by simp
    from updateImage_total[OF w(1) i w(2) wl buf, of junk]
    obtain e r where u: "updateImage d sw junk = Inr (e, sw\<lparr> scrollCount := 0 \<rparr>, r)" by blast
    from empty[OF u] have "r = []" .
    moreover have "sw\<lparr> scrollCount := 0 \<rparr> = sw" using sc by simp
    ultimately show ?thesis using u by simp
  qed
  from empty ret show ?thesis by blast
qed

theorem unchanged_grid_empty_region_witness:
  "imageInv (gridDisplay 2 2 [glyph 0x41, blankCell, blankCell, glyph 0x42, blankCell] []) \<and>
   m_imPreeditLength (gridDisplay 2 2 [glyph 0x41, blankCell, blankCell, glyph 0x42, blankCell] []) \<le> 0 \<and>
   updateImage (gridDisplay 2 2 [glyph 0x41, blankCell, blankCell, glyph 0x42, blankCell] [])
     \<lparr> scrollCount = 0, windowImage = [glyph 0x41, blankCell, blankCell, glyph 0x42, blankCell],
       windowLines = 2, windowColumns = 2 \<rparr> blankJunk
   = Inr (gridDisplay 2 2 [glyph 0x41, blankCell, blankCell, glyph 0x42, blankCell] [],
          \<lparr> scrollCount = 0, windowImage = [glyph 0x41, blankCell, blankCell, glyph 0x42, blankCell],
            windowLines = 2, windowColumns = 2 \<rparr>, []) \<and>
   regionIsEmpty []"
proof -
  let ?img = "[glyph 0x41, blankCell, blankCell, glyph 0x42, blankCell]"
  let ?d = "gridDisplay 2 2 ?img []"
  let ?sw = "\<lparr> scrollCount = 0, windowImage = ?img, windowLines = 2, windowColumns = 2 \<rparr>"
  have i: "image ?d = Some ?img" by code_simp
  have sc: "scrollCount ?sw = 0" by simp
  have u: "updateImage ?d ?sw blankJunk = Inr (?d, ?sw, [])" by code_simp
  have dims: "windowLines ?sw = lines ?d" "windowColumns ?sw = columns ?d" by code_simp+
  have same: "\<forall>y x. 0 \<le> y \<and> y < lines ?d \<and> 0 \<le> x \<and> x < columns ?d \<longrightarrow>
                 newLineOf ?sw y x = currentLineOf ?d ?img y x"
    by (simp add: currentLineOf_def newLineOf_def gridDisplay_def)
  have noim: "m_imPreeditLength ?d \<le> 0" by code_simp
  have nodh: "\<forall>y. 0 \<le> y \<and> y < lines ?d \<longrightarrow> \<not> doubleHeightAt ?d y"
    by (simp add: doubleHeightAt_def gridDisplay_def)
  have inv: "imageInv ?d" by code_simp
  have pre: "0 \<le> usedColumns ?d" "lines ?d * columns ?d < int (length (windowImage ?sw))"
    by code_simp+
  from unchanged_grid_empty_region[OF i sc dims same noim nodh, of blankJunk ?d ?sw "[]"] inv pre
  have "updateImage ?d ?sw blankJunk = Inr (?d, ?sw, []) \<longrightarrow> ([] :: QRegion) = []"
    and "\<exists>e. updateImage ?d ?sw blankJunk = Inr (e, ?sw, [])"
    by blast+
  with u inv noim show ?thesis by (simp add: regionIsEmpty_def)
qed

text \<open>
  Three calls with a window that equals the retained image, cell by cell and in its
  dimensions, and a region that is not empty: a row with the double-height flag; a
  pending scroll of one line, which moves the retained cells before the comparison; an
  active input composition with a selection.
\<close>

theorem unchanged_grid_region_not_empty:
  "image (gridDisplay 1 2 [blankCell, blankCell, blankCell] [LINE_DOUBLEHEIGHT])
     = Some (windowImage \<lparr> scrollCount = 0, windowImage = [blankCell, blankCell, blankCell],
                           windowLines = 1, windowColumns = 2 \<rparr>) \<and>
   updateImage (gridDisplay 1 2 [blankCell, blankCell, blankCell] [LINE_DOUBLEHEIGHT])
     \<lparr> scrollCount = 0, windowImage = [blankCell, blankCell, blankCell], windowLines = 1, windowColumns = 2 \<rparr>
     blankJunk
   = Inr (gridDisplay 1 2 [blankCell, blankCell, blankCell] [LINE_DOUBLEHEIGHT],
          \<lparr> scrollCount = 0, windowImage = [blankCell, blankCell, blankCell], windowLines = 1, windowColumns = 2 \<rparr>,
          [mkRect 1 1 2 1]) \<and>
   \<not> regionIsEmpty [mkRect 1 1 2 1] \<and>
   image (gridDisplay 2 1 [glyph 0x41, glyph 0x42, blankCell] [])
     = Some (windowImage \<lparr> scrollCount = 1, windowImage = [glyph 0x41, glyph 0x42, blankCell],
                           windowLines = 2, windowColumns = 1 \<rparr>) \<and>
   updateImage (gridDisplay 2 1 [glyph 0x41, glyph 0x42, blankCell] [])
     \<lparr> scrollCount = 1, windowImage = [glyph 0x41, glyph 0x42, blankCell], windowLines = 2, windowColumns = 1 \<rparr>
     blankJunk
   = Inr (gridDisplay 2 1 [glyph 0x41, glyph 0x42, blankCell] [],
          \<lparr> scrollCount = 0, windowImage = [glyph 0x41, glyph 0x42, blankCell], windowLines = 2, windowColumns = 1 \<rparr>,
          [mkRect 1 1 1 1]) \<and>
   \<not> regionIsEmpty [mkRect 1 1 1 1] \<and>
   image ((gridDisplay 1 3 [blankCell, blankCell, blankCell, blankCell] [])
            \<lparr> m_imPreeditLength := 1, m_imSelStart := 0, m_imSelEnd := 1 \<rparr>)
     = Some (windowImage \<lparr> scrollCount = 0, windowImage = [blankCell, blankCell, blankCell, blankCell],
                           windowLines = 1, windowColumns = 3 \<rparr>) \<and>
   updateImage ((gridDisplay 1 3 [blankCell, blankCell, blankCell, blankCell] [])
                  \<lparr> m_imPreeditLength := 1, m_imSelStart := 0, m_imSelEnd := 1 \<rparr>)
     \<lparr> scrollCount = 0, windowImage = [blankCell, blankCell, blankCell, blankCell], windowLines = 1, windowColumns = 3 \<rparr>
     blankJunk
   = Inr ((gridDisplay 1 3 [blankCell, blankCell, blankCell, blankCell] [])
            \<lparr> m_imPreeditLength := 1, m_imSelStart := 0, m_imSelEnd := 1 \<rparr>,
          \<lparr> scrollCount = 0, windowImage = [blankCell, blankCell, blankCell, blankCell], windowLines = 1, windowColumns = 3 \<rparr>,
          [mkRect 1 1 3 1]) \<and>
   \<not> regionIsEmpty [mkRect 1 1 3 1]"
  by code_simp

section \<open>Resize events, the scroll bar and the fixed size\<close>

lemma calcGeometry_fixed:
  "isFixedSize d \<Longrightarrow> calcGeometry d = Inr g \<Longrightarrow>
   lines g = lines d \<and> columns g = columns d \<and> usedLines g = usedLines d \<and>
   usedColumns g = usedColumns d"
  by (cases "scrollLoc d") (auto simp: calcGeometry_def Let_def)

lemma calcGeometry_total:
  assumes "font_w d \<noteq> 0" "font_h d \<noteq> 0"
  shows "\<exists>g. calcGeometry d = Inr g"
  using assms by (cases "scrollLoc d") (simp_all add: calcGeometry_def Let_def)

lemma calcGeometry_free:
  "\<not> isFixedSize d \<Longrightarrow> calcGeometry d = Inr g \<Longrightarrow>
   0 < lines g \<and> 0 < columns g \<and> usedLines g \<le> lines g \<and> usedColumns g \<le> columns g"
  by (cases "scrollLoc d") (auto simp: calcGeometry_def Let_def split: if_splits)

lemma makeImage_total:
  assumes g: "calcGeometry d = Inr g" and a: "0 < lines g" "0 < columns g"
    and b: "usedLines g \<le> lines g" "usedColumns g \<le> columns g"
  shows "makeImage d junk = Inr (g\<lparr> image_size := lines g * columns g,
           image := Some (replicate (nat (lines g * columns g + 1)) blankCell) \<rparr>)"
proof -
  let ?n = "lines g * columns g"
  have n0: "0 \<le> ?n" using a by simp
  have cl: "clearLoop (map junk [0..<nat (?n + 1)]) 0 ?n = Inr (replicate (nat (?n + 1)) blankCell)"
    using clearLoop_result[of 0 ?n "map junk [0..<nat (?n + 1)]"] n0 by simp
  from g a b show ?thesis
    by (simp add: makeImage_def Let_def clearImage_def cl)
qed

lemma copyLoop_total:
  "0 \<le> cols \<Longrightarrow>
   (\<forall>l. lin \<le> l \<and> l < lins \<longrightarrow>
      0 \<le> columns' * l \<and> columns' * l + cols \<le> int (length img) \<and>
      0 \<le> oldcol * l \<and> oldcol * l + cols \<le> int (length old)) \<Longrightarrow>
   \<exists>img'. copyLoop img columns' old oldcol cols lins lin = Inr img'"
proof (induction img columns' old oldcol cols lins lin rule: copyLoop.induct)
  case (1 img columns' old oldcol cols lins lin)
  note unf = copyLoop.simps[of img columns' old oldcol cols lins lin]
  show ?case
  proof (cases "lin < lins")
    case False
    then show ?thesis by (simp add: unf)
  next
    case True
    with "1.prems"(2) have r: "0 \<le> columns' * lin" "columns' * lin + cols \<le> int (length img)"
      "0 \<le> oldcol * lin" "oldcol * lin + cols \<le> int (length old)" by simp_all
    with "1.prems"(1) have "\<exists>img1. memcpyCells img (columns' * lin) old (oldcol * lin) cols = Inr img1"
      by (simp add: memcpyCells_def not_less)
    then obtain img1 where m: "memcpyCells img (columns' * lin) old (oldcol * lin) cols = Inr img1" ..
    have len: "length img1 = length img" by (rule memcpyCells_length[OF m])
    from "1.prems"(2) have rest: "\<forall>l. lin + 1 \<le> l \<and> l < lins \<longrightarrow>
      0 \<le> columns' * l \<and> columns' * l + cols \<le> int (length img1) \<and>
      0 \<le> oldcol * l \<and> oldcol * l + cols \<le> int (length old)"
      unfolding len by simp
    from "1.IH"[OF True m "1.prems"(1) rest] True m show ?thesis by (simp add: unf)
  qed
qed

lemma row_end_bound:
  assumes "0 \<le> l" "l < n" "0 \<le> cols" "cols \<le> (w::int)"
  shows "0 \<le> w * l" and "w * l + cols \<le> n * w"
proof -
  from assms have w: "0 \<le> w" by simp
  with assms show "0 \<le> w * l" by simp
  from assms have "l + 1 \<le> n" by simp
  then have "(l + 1) * w \<le> n * w" using w by (intro mult_right_mono) auto
  with assms show "w * l + cols \<le> n * w" by (simp add: algebra_simps)
qed

lemma updateImageSize_total:
  assumes inv: "imageInv d" and i: "image d = Some old"
    and f: "font_w d \<noteq> 0" "font_h d \<noteq> 0"
  shows "\<exists>d'. updateImageSize d junk = Inr d'"
proof -
  note o = imageInvD[OF inv i]
  from calcGeometry_total[OF f] obtain g where g: "calcGeometry d = Inr g" ..
  have a: "0 < lines g \<and> 0 < columns g \<and> usedLines g \<le> lines g \<and> usedColumns g \<le> columns g"
  proof (cases "isFixedSize d")
    case True
    from calcGeometry_fixed[OF True g] o show ?thesis by simp
  next
    case False
    from calcGeometry_free[OF False g] show ?thesis .
  qed
  let ?n = "lines g * columns g"
  let ?img = "replicate (nat (?n + 1)) blankCell"
  let ?d1 = "g\<lparr> image_size := ?n, image := Some ?img \<rparr>"
  have m: "makeImage d junk = Inr ?d1" using a by (intro makeImage_total[OF g]) simp_all
  let ?cols = "min (columns d) (columns g)" and ?lins = "min (lines d) (lines g)"
  have c0: "0 \<le> ?cols" using a o(2) by simp
  have n0: "0 \<le> ?n" using a by simp
  have rng: "\<forall>l. 0 \<le> l \<and> l < ?lins \<longrightarrow>
      0 \<le> columns g * l \<and> columns g * l + ?cols \<le> int (length ?img) \<and>
      0 \<le> columns d * l \<and> columns d * l + ?cols \<le> int (length old)"
  proof (intro allI impI)
    fix l assume l: "0 \<le> l \<and> l < ?lins"
    then have l1: "0 \<le> l" "l < lines g" "l < lines d" by simp_all
    have cg: "?cols \<le> columns g" and cd: "?cols \<le> columns d" by simp_all
    from row_end_bound[OF l1(1,2) c0 cg] n0
    have x: "0 \<le> columns g * l" "columns g * l + ?cols \<le> int (length ?img)" by simp_all
    from row_end_bound[OF l1(1,3) c0 cd] o(3,4)
    have y: "0 \<le> columns d * l" "columns d * l + ?cols \<le> int (length old)" by simp_all
    from x y show "0 \<le> columns g * l \<and> columns g * l + ?cols \<le> int (length ?img) \<and>
      0 \<le> columns d * l \<and> columns d * l + ?cols \<le> int (length old)" by blast
  qed
  from copyLoop_total[OF c0 rng] obtain img'
    where c: "copyLoop ?img (columns g) old (columns d) ?cols ?lins 0 = Inr img'" ..
  have "updateImageSize d junk = Inr (?d1\<lparr> image := Some img', resizing := False \<rparr>)"
    by (simp add: updateImageSize_def Let_def m i c)
  then show ?thesis ..
qed

lemma setFixedSize_blank:
  assumes s: "setFixedSize d cols lins junk = Inr d'" and i: "image d = Some old"
  shows "lines d' = max 1 lins \<and> columns d' = max 1 cols \<and>
         image d' = Some (replicate (nat (lines d' * columns d' + 1)) blankCell)"
proof -
  let ?d5 = "d\<lparr> isFixedSize := True, columns := max 1 cols, lines := max 1 lins,
                usedColumns := min (usedColumns d) (max 1 cols),
                usedLines := min (usedLines d) (max 1 lins) \<rparr>"
  from s i have m: "makeImage ?d5 junk = Inr d'" by (simp add: setFixedSize_def Let_def)
  then show ?thesis
  proof (cases rule: makeImage_Inr)
    case (made g)
    have fx: "isFixedSize ?d5" by simp
    from calcGeometry_fixed[OF fx made(1)] have "lines g = max 1 lins" "columns g = max 1 cols"
      by simp_all
    then show ?thesis by (simp add: made(6))
  qed
qed

text \<open>
  C7 (as amended). Let the display have an image of the shape that \<^verbatim>\<open>makeImage\<close> sets
  up for its lines and columns, so that the cell of the old grid at line \<open>lin\<close> and
  column \<open>c\<close> is the cell at index \<open>lin * columns + c\<close>. When a resize event has run
  \<^verbatim>\<open>updateImageSize\<close> for the new geometry, the display has a new image for its new
  lines and columns; a cell of the new grid holds the cell that the old grid had at the
  same line and column if the position lies in both grids (\<open>lin < min oldlin lines\<close> and
  \<open>c < min oldcol columns\<close>), and every other cell is the blank cell: the space code
  point, the default foreground and background colours, the default rendition. With
  fonts of a width and height other than 0 the resize event returns. \<^verbatim>\<open>setFixedSize\<close>
  copies nothing: it leaves an image of blank cells for the lines and columns it is given.
\<close>

theorem resize_copies_overlap:
  assumes inv: "imageInv d"
  shows "(resizeEvent d geom junk = Inr d' \<longrightarrow>
            (\<exists>img'. image d' = Some img' \<and> image_size d' = lines d' * columns d' \<and>
               int (length img') = lines d' * columns d' + 1 \<and>
               (\<forall>lin c. 0 \<le> lin \<and> lin < lines d' \<and> 0 \<le> c \<and> c < columns d' \<longrightarrow>
                  cellAt img' (lin * columns d' + c) =
                    (case image d of
                       None \<Rightarrow> Inr blankCell
                     | Some old \<Rightarrow>
                         if lin < min (lines d) (lines d') \<and> c < min (columns d) (columns d')
                         then Inr (old ! nat (lin * columns d + c))
                         else Inr blankCell)))) \<and>
         (image d \<noteq> None \<and> font_w d \<noteq> 0 \<and> font_h d \<noteq> 0 \<longrightarrow>
            (\<exists>e. resizeEvent d geom junk = Inr e)) \<and>
         (image d \<noteq> None \<and> setFixedSize d cols lins junk = Inr d'' \<longrightarrow>
            lines d'' = max 1 lins \<and> columns d'' = max 1 cols \<and>
            image d'' = Some (replicate (nat (lines d'' * columns d'' + 1)) blankCell))"
proof (intro conjI impI)
  assume "resizeEvent d geom junk = Inr d'"
  then have u: "updateImageSize (d\<lparr> contentsRect := geom \<rparr>) junk = Inr d'"
    by (simp add: resizeEvent_def)
  have e: "lines (d\<lparr> contentsRect := geom \<rparr>) = lines d"
    "columns (d\<lparr> contentsRect := geom \<rparr>) = columns d"
    "image (d\<lparr> contentsRect := geom \<rparr>) = image d" by simp_all
  from updateImageSize_cells[OF u, unfolded e]
  show "\<exists>img'. image d' = Some img' \<and> image_size d' = lines d' * columns d' \<and>
               int (length img') = lines d' * columns d' + 1 \<and>
               (\<forall>lin c. 0 \<le> lin \<and> lin < lines d' \<and> 0 \<le> c \<and> c < columns d' \<longrightarrow>
                  cellAt img' (lin * columns d' + c) =
                    (case image d of
                       None \<Rightarrow> Inr blankCell
                     | Some old \<Rightarrow>
                         if lin < min (lines d) (lines d') \<and> c < min (columns d) (columns d')
                         then Inr (old ! nat (lin * columns d + c))
                         else Inr blankCell))" .
next
  assume a: "image d \<noteq> None \<and> font_w d \<noteq> 0 \<and> font_h d \<noteq> 0"
  then obtain old where i0: "image d = Some old" by auto
  then have i: "image (d\<lparr> contentsRect := geom \<rparr>) = Some old" by simp
  note o = imageInvD[OF inv i0]
  have inv': "imageInv (d\<lparr> contentsRect := geom \<rparr>)"
    by (rule imageInvI[OF i]) (use o in simp_all)
  from a have f: "font_w (d\<lparr> contentsRect := geom \<rparr>) \<noteq> 0" "font_h (d\<lparr> contentsRect := geom \<rparr>) \<noteq> 0"
    by simp_all
  from updateImageSize_total[OF inv' i f, of junk]
  show "\<exists>e. resizeEvent d geom junk = Inr e" by (simp add: resizeEvent_def)
next
  assume a: "image d \<noteq> None \<and> setFixedSize d cols lins junk = Inr d''"
  then obtain old where i: "image d = Some old" by auto
  from a have s: "setFixedSize d cols lins junk = Inr d''" by simp
  from setFixedSize_blank[OF s i]
  show "lines d'' = max 1 lins" "columns d'' = max 1 cols"
    "image d'' = Some (replicate (nat (lines d'' * columns d'' + 1)) blankCell)"
    by simp_all
qed

text \<open>
  A grid of two lines and three columns resized to three lines and two columns, and
  given the fixed size of two lines and two columns.
\<close>

theorem resize_copies_overlap_witness:
  "imageInv (gridDisplay 2 3 sixCells []) \<and>
   resizeEvent (gridDisplay 2 3 sixCells []) (mkRect 0 0 4 4) blankJunk
   = Inr ((gridDisplay 2 3 sixCells [])
            \<lparr> contentsRect := mkRect 0 0 4 4, lines := 3, columns := 2, usedColumns := 2,
              contentHeight := 3, contentWidth := 2, image_size := 6,
              image := Some [glyph 0x61, glyph 0x62, glyph 0x64, glyph 0x65, blankCell, blankCell, blankCell] \<rparr>) \<and>
   cellAt [glyph 0x61, glyph 0x62, glyph 0x64, glyph 0x65, blankCell, blankCell, blankCell] (1 * 2 + 1)
     = Inr (sixCells ! nat (1 * 3 + 1)) \<and>
   cellAt [glyph 0x61, glyph 0x62, glyph 0x64, glyph 0x65, blankCell, blankCell, blankCell] (2 * 2 + 0)
     = Inr blankCell \<and>
   setFixedSize (gridDisplay 2 3 sixCells []) 2 2 blankJunk
   = Inr ((gridDisplay 2 3 sixCells [])
            \<lparr> isFixedSize := True, lines := 2, columns := 2, usedColumns := 2,
              contentHeight := 2, contentWidth := 3, image_size := 4,
              image := Some (replicate 5 blankCell) \<rparr>)"
proof -
  let ?d = "gridDisplay 2 3 sixCells []"
  let ?img = "[glyph 0x61, glyph 0x62, glyph 0x64, glyph 0x65, blankCell, blankCell, blankCell]"
  let ?d' = "?d\<lparr> contentsRect := mkRect 0 0 4 4, lines := 3, columns := 2, usedColumns := 2,
              contentHeight := 3, contentWidth := 2, image_size := 6, image := Some ?img \<rparr>"
  let ?f = "?d\<lparr> isFixedSize := True, lines := 2, columns := 2, usedColumns := 2,
              contentHeight := 2, contentWidth := 3, image_size := 4,
              image := Some (replicate 5 blankCell) \<rparr>"
  have inv: "imageInv ?d" by code_simp
  have u: "resizeEvent ?d (mkRect 0 0 4 4) blankJunk = Inr ?d'" by code_simp
  have s: "setFixedSize ?d 2 2 blankJunk = Inr ?f" by code_simp
  have e: "image ?d' = Some ?img" "lines ?d' = 3" "columns ?d' = 2"
    "image ?d = Some sixCells" "lines ?d = 2" "columns ?d = 3" "font_w ?d \<noteq> 0" "font_h ?d \<noteq> 0"
    by code_simp+
  note t = resize_copies_overlap[OF inv, of "mkRect 0 0 4 4" blankJunk ?d' 2 2 ?f]
  from t[THEN conjunct1, THEN mp, OF u] obtain img' where i: "image ?d' = Some img'"
    and c: "\<forall>lin c. 0 \<le> lin \<and> lin < lines ?d' \<and> 0 \<le> c \<and> c < columns ?d' \<longrightarrow>
              cellAt img' (lin * columns ?d' + c) =
                (case image ?d of
                   None \<Rightarrow> Inr blankCell
                 | Some old \<Rightarrow>
                     if lin < min (lines ?d) (lines ?d') \<and> c < min (columns ?d) (columns ?d')
                     then Inr (old ! nat (lin * columns ?d + c))
                     else Inr blankCell)"
    by blast
  from i e(1) have img': "img' = ?img" by simp
  from c[rule_format, of 1 1] c[rule_format, of 2 0]
  have "cellAt ?img (1 * 2 + 1) = Inr (sixCells ! nat (1 * 3 + 1))"
    and "cellAt ?img (2 * 2 + 0) = Inr blankCell"
    unfolding img' e by simp_all
  moreover from t[THEN conjunct2, THEN conjunct1] e
  have "\<exists>r. resizeEvent ?d (mkRect 0 0 4 4) blankJunk = Inr r" by simp
  moreover from t[THEN conjunct2, THEN conjunct2] e(4) s
  have "image ?f = Some (replicate (nat (lines ?f * columns ?f + 1)) blankCell)" by simp
  ultimately show ?thesis using inv u s by simp
qed

text \<open>
  The same grid without a copy of the retained content, and with a copy at another
  place. \<^verbatim>\<open>setFixedSize\<close> for two lines and two columns leaves the blank cell at line 0,
  column 0, where the old grid has the letter a. When a scroll bar one column wide is
  placed at the right, \<^verbatim>\<open>setScrollbarLocation\<close> has the columns recomputed before
  \<^verbatim>\<open>updateImageSize\<close> runs, the old array is read with the new number of columns as
  its row length, and the new cell at line 1, column 0 is the letter c of line 0,
  column 2, not the letter d.
\<close>

theorem resize_without_copy_or_with_new_stride:
  "imageInv (gridDisplay 2 3 sixCells []) \<and>
   setFixedSize (gridDisplay 2 3 sixCells []) 2 2 blankJunk
   = Inr ((gridDisplay 2 3 sixCells [])
            \<lparr> isFixedSize := True, lines := 2, columns := 2, usedColumns := 2,
              contentHeight := 2, contentWidth := 3, image_size := 4,
              image := Some (replicate 5 blankCell) \<rparr>) \<and>
   cellAt (replicate 5 blankCell) (0 * 2 + 0) = Inr blankCell \<and>
   cellAt sixCells (0 * 3 + 0) = Inr (glyph 0x61) \<and>
   glyph 0x61 \<noteq> blankCell \<and>
   imageInv ((gridDisplay 2 3 sixCells [])\<lparr> scrollbarWidth := 1 \<rparr>) \<and>
   setScrollbarLocation ((gridDisplay 2 3 sixCells [])\<lparr> scrollbarWidth := 1 \<rparr>) SCROLLBAR_RIGHT blankJunk
   = Inr ((gridDisplay 2 3 sixCells [])
            \<lparr> scrollbarWidth := 1, scrollLoc := SCROLLBAR_RIGHT, columns := 2, usedColumns := 2,
              contentHeight := 2, contentWidth := 2, image_size := 4,
              image := Some [glyph 0x61, glyph 0x62, glyph 0x63, glyph 0x64, blankCell] \<rparr>) \<and>
   cellAt [glyph 0x61, glyph 0x62, glyph 0x63, glyph 0x64, blankCell] (1 * 2 + 0) = Inr (glyph 0x63) \<and>
   cellAt sixCells (1 * 3 + 0) = Inr (glyph 0x64) \<and>
   glyph 0x63 \<noteq> glyph 0x64"
  by code_simp


section \<open>Properties of the history line store\<close>

lemma addCellsRun_cells:
  "addCellsRun h calls = Inr h1 \<Longrightarrow> h1 = h\<lparr> hCells := hCells h @ cellsWritten calls \<rparr>"
proof (induction h calls rule: addCellsRun.induct)
  case (1 h)
  then show ?case by (simp add: cellsWritten_def)
next
  case (2 h text' count rest)
  from "2.prems" obtain h' where h': "addCells h text' count = Inr h'"
    and r: "addCellsRun h' rest = Inr h1"
    by (auto split: sum.splits)
  from h' have e: "h' = h\<lparr> hCells := hCells h @ take (nat count) text' \<rparr>"
    by (auto simp: addCells_def split: if_splits)
  from "2.IH"[OF h' r] e show ?case by (simp add: cellsWritten_def)
qed

lemma historyInv_empty: "historyInv emptyHistory"
  by (simp add: historyInv_def emptyHistory_def)

lemma historyInv_addCells: "historyInv h \<Longrightarrow> addCells h t c = Inr h' \<Longrightarrow> historyInv h'"
  by (auto simp: historyInv_def addCells_def split: if_splits)

lemma sorted_le_last: "sorted (xs :: int list) \<Longrightarrow> x \<in> set xs \<Longrightarrow> x \<le> last xs"
proof -
  assume s: "sorted xs" and x: "x \<in> set xs"
  then have ne: "xs \<noteq> []" by auto
  then have "xs = butlast xs @ [last xs]" by simp
  with s have "sorted (butlast xs @ [last xs])" by simp
  then have "\<forall>y \<in> set (butlast xs). y \<le> last xs" by (simp add: sorted_append)
  moreover from x ne have "x \<in> set (butlast xs) \<or> x = last xs"
    by (metis append_butlast_last_id rotate1.simps(2) set_ConsD set_rotate1)
  ultimately show ?thesis by auto
qed

lemma historyInv_addLine: "historyInv h \<Longrightarrow> historyInv (addLine h w)"
proof -
  assume inv: "historyInv h"
  then have "\<forall>x \<in> set (hIndex h). x \<le> int (length (hCells h))"
    using sorted_le_last[of "hIndex h"] by (fastforce simp: historyInv_def)
  with inv show ?thesis
    by (simp add: historyInv_def addLine_def sorted_append)
qed

text \<open>
  C8. Let a store that satisfies the invariant of the appending operations take a run of
  \<^verbatim>\<open>addCells\<close> calls and then one \<^verbatim>\<open>addLine\<close>. The line completed by that \<^verbatim>\<open>addLine\<close>
  has the number \<open>getLines h\<close>; its length, as \<^verbatim>\<open>getLineLen\<close> gives it, is the number of
  cells appended since the previous \<^verbatim>\<open>addLine\<close> (those pending before the run and those
  of the run), and \<^verbatim>\<open>getCells\<close> at column 0 with that length returns exactly these cells
  in order. After an \<^verbatim>\<open>addLine\<close> no cells are pending, so for a run that starts at a line
  boundary the line read back is the cell sequence the run wrote.
\<close>

theorem history_round_trip:
  assumes inv: "historyInv h" and run: "addCellsRun h calls = Inr h1"
  shows "getLines (addLine h1 w) = getLines h + 1 \<and>
         getLineLen (addLine h1 w) (getLines h) = Inr (int (length (pendingCells h @ cellsWritten calls))) \<and>
         getCells (addLine h1 w) (getLines h) 0 (int (length (pendingCells h @ cellsWritten calls)))
           = Inr (pendingCells h @ cellsWritten calls) \<and>
         pendingCells (addLine h1 w) = []"
proof -
  let ?h2 = "addLine h1 w"
  let ?n = "length (hLineflags h)"
  have h1: "h1 = h\<lparr> hCells := hCells h @ cellsWritten calls \<rparr>"
    by (rule addCellsRun_cells[OF run])
  from inv have ne: "hIndex h \<noteq> []" and len: "length (hIndex h) = ?n + 1"
    and last_le: "last (hIndex h) \<le> int (length (hCells h))"
    and srt: "sorted (hIndex h)" and hd0: "hd (hIndex h) = 0"
    by (simp_all add: historyInv_def)
  have last_nth: "last (hIndex h) = hIndex h ! ?n"
    using ne len by (simp add: last_conv_nth)
  have "hd (hIndex h) \<le> last (hIndex h)"
    using srt ne by (metis hd_conv_nth last_conv_nth length_greater_0_conv
        sorted_nth_mono diff_less zero_less_one zero_le)
  then have last_ge: "0 \<le> last (hIndex h)" using hd0 by simp
  have lines: "getLines ?h2 = getLines h + 1"
    by (simp add: getLines_def addLine_def h1)
  have s1: "startOfLine ?h2 (getLines h + 1) = Inr (int (length (hCells h @ cellsWritten calls)))"
    using len by (simp add: startOfLine_def getLines_def addLine_def h1 nth_append nat_add_distrib)
  have s0: "startOfLine ?h2 (getLines h) = Inr (last (hIndex h))"
    using len last_nth by (simp add: startOfLine_def getLines_def addLine_def h1 nth_append)
  have plen: "int (length (pendingCells h @ cellsWritten calls))
      = int (length (hCells h @ cellsWritten calls)) - last (hIndex h)"
    using last_le last_ge by (simp add: pendingCells_def)
  have ll: "getLineLen ?h2 (getLines h) = Inr (int (length (pendingCells h @ cellsWritten calls)))"
    unfolding getLineLen_def lines s1 s0 plen by (simp add: getLines_def)
  have cells2: "hCells ?h2 = hCells h @ cellsWritten calls"
    by (simp add: addLine_def h1)
  have dr: "drop (nat (last (hIndex h))) (hCells h @ cellsWritten calls)
      = pendingCells h @ cellsWritten calls"
    using last_le last_ge by (simp add: pendingCells_def)
  have gc: "getCells ?h2 (getLines h) 0 (int (length (pendingCells h @ cellsWritten calls)))
           = Inr (pendingCells h @ cellsWritten calls)"
    unfolding getCells_def ll s0 cells2 using last_le last_ge
    by (simp add: dr) (simp add: pendingCells_def)
  have pe: "pendingCells ?h2 = []"
    by (simp add: pendingCells_def addLine_def)
  from lines ll gc pe show ?thesis by simp
qed

theorem history_round_trip_witness:
  "historyInv emptyHistory \<and>
   addCellsRun emptyHistory [([blankCell\<lparr> character := 0x41 \<rparr>, blankCell], 2), ([blankCell\<lparr> character := 0x42 \<rparr>], 1)]
     = Inr (emptyHistory\<lparr> hCells := [blankCell\<lparr> character := 0x41 \<rparr>, blankCell, blankCell\<lparr> character := 0x42 \<rparr>] \<rparr>) \<and>
   getLineLen (addLine (emptyHistory\<lparr> hCells := [blankCell\<lparr> character := 0x41 \<rparr>, blankCell, blankCell\<lparr> character := 0x42 \<rparr>] \<rparr>) False) 0 = Inr 3 \<and>
   getCells (addLine (emptyHistory\<lparr> hCells := [blankCell\<lparr> character := 0x41 \<rparr>, blankCell, blankCell\<lparr> character := 0x42 \<rparr>] \<rparr>) False) 0 0 3
     = Inr [blankCell\<lparr> character := 0x41 \<rparr>, blankCell, blankCell\<lparr> character := 0x42 \<rparr>]"
proof -
  have inv: "historyInv emptyHistory"
    by (simp add: historyInv_def emptyHistory_def)
  have run: "addCellsRun emptyHistory [([blankCell\<lparr> character := 0x41 \<rparr>, blankCell], 2), ([blankCell\<lparr> character := 0x42 \<rparr>], 1)]
     = Inr (emptyHistory\<lparr> hCells := [blankCell\<lparr> character := 0x41 \<rparr>, blankCell, blankCell\<lparr> character := 0x42 \<rparr>] \<rparr>)"
    by (simp add: addCells_def emptyHistory_def)
  from history_round_trip[OF inv run, of False] inv run show ?thesis
    by (simp add: getLines_def emptyHistory_def pendingCells_def cellsWritten_def)
qed


end
